theory Spec2Isabelle
  imports Main
begin

section \<open>JSON-like document trees\<close>

text \<open>
  The document pipeline (\<^verbatim>\<open>document_pipeline.py\<close>, class \<^verbatim>\<open>DocumentPipeline\<close>) walks
  untyped Python values obtained from \<^verbatim>\<open>json.loads\<close>: dicts, lists and scalars.
  A dict keeps its insertion order, so it is an association list; its keys are distinct
  in every value that Python can build. Strings are lists of characters whose code
  points are below 256.
\<close>

datatype json =
    JNull
  | JBool bool
  | JNum int
  | JStr string
  | JList "json list"
  | JDict "(string \<times> json) list"

text \<open>Python truthiness of a JSON value, as \<^verbatim>\<open>not node.get('id')\<close> tests it.\<close>

fun truthy :: "json \<Rightarrow> bool" where
  "truthy JNull = False"
| "truthy (JBool b) = b"
| "truthy (JNum n) = (n \<noteq> 0)"
| "truthy (JStr s) = (s \<noteq> [])"
| "truthy (JList xs) = (xs \<noteq> [])"
| "truthy (JDict kvs) = (kvs \<noteq> [])"

text \<open>\<^verbatim>\<open>key in node\<close>, \<^verbatim>\<open>node.get(key)\<close> and \<^verbatim>\<open>node[key] = v\<close> on a dict.\<close>

definition has_key :: "string \<Rightarrow> (string \<times> json) list \<Rightarrow> bool" where
  "has_key k kvs = (map_of kvs k \<noteq> None)"

definition dict_get :: "(string \<times> json) list \<Rightarrow> string \<Rightarrow> json" where
  "dict_get kvs k = (case map_of kvs k of None \<Rightarrow> JNull | Some v \<Rightarrow> v)"

fun dict_set :: "string \<Rightarrow> json \<Rightarrow> (string \<times> json) list \<Rightarrow> (string \<times> json) list" where
  "dict_set k v [] = [(k, v)]"
| "dict_set k v ((k', v') # kvs) =
     (if k' = k then (k, v) # kvs else (k', v') # dict_set k v kvs)"

section \<open>Node Identifier: \<^verbatim>\<open>add_ids_to_nodes\<close>\<close>

text \<open>\<^verbatim>\<open>f"{n:04x}"\<close> for a draw \<^verbatim>\<open>n = random.randint(0, 0xFFFF)\<close>.\<close>

definition hex_digit :: "nat \<Rightarrow> char" where
  "hex_digit d = ''0123456789abcdef'' ! (d mod 16)"

definition hex4 :: "nat \<Rightarrow> string" where
  "hex4 n = [hex_digit (n div 4096), hex_digit (n div 256), hex_digit (n div 16), hex_digit n]"

text \<open>
  \<^verbatim>\<open>_generate_random_hex_id\<close>: \<^verbatim>\<open>while True\<close> draws until the id is not in
  \<^verbatim>\<open>existing_ids\<close>. The random draws are the list \<open>ds\<close>, consumed from the front; the
  loop may run forever, and \<open>None\<close> says that it has not returned within the draws given.
\<close>

fun generate_random_hex_id :: "nat list \<Rightarrow> string set \<Rightarrow> (string \<times> nat list) option" where
  "generate_random_hex_id [] existing_ids = None"
| "generate_random_hex_id (d # ds) existing_ids =
     (let new_id = hex4 d in
      if new_id \<notin> existing_ids then Some (new_id, ds)
      else generate_random_hex_id ds existing_ids)"

text \<open>The test \<^verbatim>\<open>'type' in node and not node.get('id')\<close>.\<close>

definition needs_id :: "(string \<times> json) list \<Rightarrow> bool" where
  "needs_id kvs = (has_key ''type'' kvs \<and> \<not> truthy (dict_get kvs ''id''))"

text \<open>A measure for the traversal: the number of dicts and lists in a value.\<close>

fun jsize :: "json \<Rightarrow> nat" where
  "jsize (JList xs) = Suc (sum_list (map jsize xs))"
| "jsize (JDict kvs) = Suc (sum_list (map (\<lambda>kv. jsize (snd kv)) kvs))"
| "jsize _ = 0"

definition items_size :: "(string \<times> json) list \<Rightarrow> nat" where
  "items_size kvs = sum_list (map (\<lambda>kv. jsize (snd kv)) kvs)"

lemma items_size_simps [simp]:
  "items_size [] = 0"
  "items_size ((k, v) # kvs) = jsize v + items_size kvs"
  by (simp_all add: items_size_def)

lemma items_size_dict_set_str: "items_size (dict_set k (JStr s) kvs) \<le> items_size kvs"
  by (induction kvs) auto

text \<open>
  \<^verbatim>\<open>add_ids_to_nodes(node, node_id, existing_ids)\<close>. The set \<^verbatim>\<open>existing_ids\<close> is
  shared by the whole traversal and is returned with the rest of the draws. A dict gets
  its id first and then every value of the (updated) dict is processed in key order; a
  list is processed item by item; anything else is returned as it is.
\<close>

function add_ids_to_nodes :: "json \<Rightarrow> nat list \<Rightarrow> string set \<Rightarrow> (json \<times> nat list \<times> string set) option"
  and add_ids_items :: "(string \<times> json) list \<Rightarrow> nat list \<Rightarrow> string set \<Rightarrow> ((string \<times> json) list \<times> nat list \<times> string set) option"
  and add_ids_list :: "json list \<Rightarrow> nat list \<Rightarrow> string set \<Rightarrow> (json list \<times> nat list \<times> string set) option"
  where
  "add_ids_to_nodes (JDict kvs) ds ex =
     (if needs_id kvs then
        (case generate_random_hex_id ds ex of
           None \<Rightarrow> None
         | Some (new_id, ds1) \<Rightarrow>
             (case add_ids_items (dict_set ''id'' (JStr new_id) kvs) ds1 (insert new_id ex) of
                None \<Rightarrow> None
              | Some (kvs', ds2, ex2) \<Rightarrow> Some (JDict kvs', ds2, ex2)))
      else
        (case add_ids_items kvs ds ex of
           None \<Rightarrow> None
         | Some (kvs', ds2, ex2) \<Rightarrow> Some (JDict kvs', ds2, ex2)))"
| "add_ids_to_nodes (JList xs) ds ex =
     (case add_ids_list xs ds ex of
        None \<Rightarrow> None
      | Some (ys, ds2, ex2) \<Rightarrow> Some (JList ys, ds2, ex2))"
| "add_ids_to_nodes JNull ds ex = Some (JNull, ds, ex)"
| "add_ids_to_nodes (JBool b) ds ex = Some (JBool b, ds, ex)"
| "add_ids_to_nodes (JNum n) ds ex = Some (JNum n, ds, ex)"
| "add_ids_to_nodes (JStr s) ds ex = Some (JStr s, ds, ex)"
| "add_ids_items [] ds ex = Some ([], ds, ex)"
| "add_ids_items ((k, v) # kvs) ds ex =
     (case add_ids_to_nodes v ds ex of
        None \<Rightarrow> None
      | Some (v', ds1, ex1) \<Rightarrow>
          (case add_ids_items kvs ds1 ex1 of
             None \<Rightarrow> None
           | Some (kvs', ds2, ex2) \<Rightarrow> Some ((k, v') # kvs', ds2, ex2)))"
| "add_ids_list [] ds ex = Some ([], ds, ex)"
| "add_ids_list (x # xs) ds ex =
     (case add_ids_to_nodes x ds ex of
        None \<Rightarrow> None
      | Some (y, ds1, ex1) \<Rightarrow>
          (case add_ids_list xs ds1 ex1 of
             None \<Rightarrow> None
           | Some (ys, ds2, ex2) \<Rightarrow> Some (y # ys, ds2, ex2)))"
  by pat_completeness auto

termination
proof (relation "inv_image (less_than <*lex*> less_than)
    (\<lambda>a. case a of
       Inl (t, _, _) \<Rightarrow> (jsize t, 0)
     | Inr (Inl (kvs, _, _)) \<Rightarrow> (items_size kvs, Suc (length kvs))
     | Inr (Inr (xs, _, _)) \<Rightarrow> (sum_list (map jsize xs), Suc (length xs)))", goal_cases)
  case 1
  show ?case by auto
next
  case (2 kvs ds ex x2 new_id ds1)
  have "items_size (dict_set ''id'' (JStr new_id) kvs) \<le> items_size kvs"
    by (rule items_size_dict_set_str)
  then show ?case by (simp add: items_size_def [symmetric] less_Suc_eq_le)
next
  case 3
  then show ?case by (simp add: items_size_def)
next
  case 4
  then show ?case by simp
next
  case 5
  then show ?case by auto
next
  case 6
  then show ?case by auto
next
  case 7
  then show ?case by auto
next
  case 8
  then show ?case by auto
qed


text \<open>
  What \<^verbatim>\<open>add_ids_to_nodes\<close> may change: \<open>frame t t'\<close> says that \<open>t'\<close> is \<open>t\<close> where every
  dict that has a \<^verbatim>\<open>type\<close> key and no truthy \<^verbatim>\<open>id\<close> has received a string under the key
  \<^verbatim>\<open>id\<close>, and nothing else differs: the same keys in the same order, the same list
  lengths, the same scalars. Every dict of the tree counts, also one stored under
  \<^verbatim>\<open>attrs\<close> or under \<^verbatim>\<open>id\<close>: the relation descends into every value, as the traversal
  does.
\<close>

function frame :: "json \<Rightarrow> json \<Rightarrow> bool"
  and frame_items :: "(string \<times> json) list \<Rightarrow> (string \<times> json) list \<Rightarrow> bool"
  and frame_list :: "json list \<Rightarrow> json list \<Rightarrow> bool"
  where
  "frame (JDict kvs) t' =
     (case t' of
        JDict kvs' \<Rightarrow>
          (if needs_id kvs then
             (case dict_get kvs' ''id'' of
                JStr new_id \<Rightarrow> frame_items (dict_set ''id'' (JStr new_id) kvs) kvs'
              | _ \<Rightarrow> False)
           else frame_items kvs kvs')
      | _ \<Rightarrow> False)"
| "frame (JList xs) t' = (case t' of JList ys \<Rightarrow> frame_list xs ys | _ \<Rightarrow> False)"
| "frame JNull t' = (t' = JNull)"
| "frame (JBool b) t' = (t' = JBool b)"
| "frame (JNum n) t' = (t' = JNum n)"
| "frame (JStr s) t' = (t' = JStr s)"
| "frame_items [] kvs' = (kvs' = [])"
| "frame_items ((k, v) # kvs) kvs' =
     (case kvs' of
        [] \<Rightarrow> False
      | (k', v') # rest \<Rightarrow> k' = k \<and> frame v v' \<and> frame_items kvs rest)"
| "frame_list [] ys = (ys = [])"
| "frame_list (x # xs) ys =
     (case ys of [] \<Rightarrow> False | y # rest \<Rightarrow> frame x y \<and> frame_list xs rest)"
  by pat_completeness auto

termination
proof (relation "inv_image (less_than <*lex*> less_than)
    (\<lambda>a. case a of
       Inl (t, _) \<Rightarrow> (jsize t, 0)
     | Inr (Inl (kvs, _)) \<Rightarrow> (items_size kvs, Suc (length kvs))
     | Inr (Inr (xs, _)) \<Rightarrow> (sum_list (map jsize xs), Suc (length xs)))", goal_cases)
  case 1
  show ?case by auto
next
  case (2 kvs t' kvs' new_id)
  have "items_size (dict_set ''id'' (JStr new_id) kvs) \<le> items_size kvs"
    by (rule items_size_dict_set_str)
  then show ?case by (simp add: items_size_def [symmetric] less_Suc_eq_le)
next
  case 3
  then show ?case by (simp add: items_size_def)
next
  case 4
  then show ?case by simp
next
  case 5
  then show ?case by auto
next
  case 6
  then show ?case by auto
next
  case 7
  then show ?case by auto
next
  case 8
  then show ?case by auto
qed


section \<open>Python string operations\<close>

text \<open>
  \<^verbatim>\<open>str.isspace\<close> on a code point below 256: tab to carriage return, the four
  separators 0x1C to 0x1F, the space, NEL (0x85) and the no-break space (0xA0). The
  regular expression class \<^verbatim>\<open>\s\<close> of a \<^verbatim>\<open>str\<close> pattern matches the same characters.
\<close>

definition is_space :: "char \<Rightarrow> bool" where
  "is_space c = (c \<in> {CHR 0x09, CHR 0x0A, CHR 0x0B, CHR 0x0C, CHR 0x0D, CHR 0x1C, CHR 0x1D,
                        CHR 0x1E, CHR 0x1F, CHR 0x20, CHR 0x85, CHR 0xA0})"

text \<open>\<^verbatim>\<open>s.strip()\<close>.\<close>

definition py_strip :: "string \<Rightarrow> string" where
  "py_strip s = rev (dropWhile is_space (rev (dropWhile is_space s)))"

text \<open>\<^verbatim>\<open>s.split('\n')\<close>: always at least one piece.\<close>

fun split_nl :: "string \<Rightarrow> string list" where
  "split_nl [] = [[]]"
| "split_nl (c # cs) =
     (if c = CHR 0x0A then [] # split_nl cs
      else (case split_nl cs of
              [] \<Rightarrow> [[c]]
            | l # ls \<Rightarrow> (c # l) # ls))"

text \<open>\<^verbatim>\<open>sep.join(parts)\<close>.\<close>

fun py_join :: "string \<Rightarrow> string list \<Rightarrow> string" where
  "py_join sep [] = []"
| "py_join sep [p] = p"
| "py_join sep (p # q # ps) = p @ sep @ py_join sep (q # ps)"

section \<open>Tree Flattener: \<^verbatim>\<open>flatten_nodes_to_list\<close>\<close>

record flat_node =
  node_id :: json
  node_text :: string

text \<open>The value under a key when it is a \<^verbatim>\<open>str\<close>, a \<^verbatim>\<open>list\<close> or a \<^verbatim>\<open>dict\<close>.\<close>

definition get_str :: "(string \<times> json) list \<Rightarrow> string \<Rightarrow> string option" where
  "get_str kvs k = (case map_of kvs k of Some (JStr s) \<Rightarrow> Some s | _ \<Rightarrow> None)"

definition get_list :: "(string \<times> json) list \<Rightarrow> string \<Rightarrow> json list option" where
  "get_list kvs k = (case map_of kvs k of Some (JList xs) \<Rightarrow> Some xs | _ \<Rightarrow> None)"

definition get_dict :: "(string \<times> json) list \<Rightarrow> string \<Rightarrow> (string \<times> json) list option" where
  "get_dict kvs k = (case map_of kvs k of Some (JDict d) \<Rightarrow> Some d | _ \<Rightarrow> None)"

lemma jsize_member: "x \<in> set xs \<Longrightarrow> jsize x < Suc (sum_list (map jsize xs))"
  by (induction xs) auto

lemma jsize_map_of: "map_of kvs k = Some v \<Longrightarrow> jsize v < Suc (items_size kvs)"
  by (induction kvs) (auto split: if_splits)

lemma jsize_item: "kv \<in> set kvs \<Longrightarrow> jsize (snd kv) < Suc (items_size kvs)"
  by (induction kvs) auto

lemma jsize_get_list: "get_list kvs k = Some xs \<Longrightarrow> sum_list (map jsize xs) < items_size kvs"
  using jsize_map_of [of kvs k "JList xs"]
  by (auto simp: get_list_def split: option.splits json.splits)

text \<open>
  \<^verbatim>\<open>_extract_text_from_content(content)\<close>: \<open>extract_parts\<close> is the list
  \<^verbatim>\<open>text_parts\<close>, joined by one space at the end.
\<close>

function extract_parts :: "json list \<Rightarrow> string list" where
  "extract_parts [] = []"
| "extract_parts (item # rest) =
     (case item of
        JDict kvs \<Rightarrow>
          (case get_str kvs ''text'' of
             Some s \<Rightarrow> [s]
           | None \<Rightarrow>
             (case get_list kvs ''content'' of
                Some inner \<Rightarrow>
                  (let nested_text = py_join '' '' (extract_parts inner)
                   in if nested_text \<noteq> [] then [nested_text] else [])
              | None \<Rightarrow> []))
      | _ \<Rightarrow> [])
     @ extract_parts rest"
  by pat_completeness auto

termination
proof (relation "inv_image (less_than <*lex*> less_than)
    (\<lambda>content. (sum_list (map jsize content), length content))", goal_cases)
  case 1
  show ?case by auto
next
  case (2 item rest kvs inner)
  from 2(3) have a: "sum_list (map jsize inner) < items_size kvs" by (rule jsize_get_list)
  have b: "items_size kvs < jsize item" using 2(1) by (simp add: items_size_def)
  from a b show ?case by simp
next
  case (3 item rest)
  show ?case by auto
qed

definition extract_text_from_content :: "json list \<Rightarrow> string" where
  "extract_text_from_content content = py_join '' '' (extract_parts content)"

text \<open>Node id: the node's own \<^verbatim>\<open>id\<close>, else \<^verbatim>\<open>attrs.id\<close>; \<open>JNull\<close> is \<^verbatim>\<open>None\<close>.\<close>

definition get_node_id :: "(string \<times> json) list \<Rightarrow> json" where
  "get_node_id kvs =
     (case map_of kvs ''id'' of
        Some v \<Rightarrow> v
      | None \<Rightarrow>
          (case get_dict kvs ''attrs'' of
             Some attrs \<Rightarrow> (case map_of attrs ''id'' of Some v \<Rightarrow> v | None \<Rightarrow> JNull)
           | None \<Rightarrow> JNull))"

text \<open>The two counters of the content-array test.\<close>

definition has_text :: "json \<Rightarrow> bool" where
  "has_text item =
     (case item of
        JDict kvs \<Rightarrow> (case get_str kvs ''text'' of Some s \<Rightarrow> py_strip s \<noteq> [] | None \<Rightarrow> False)
      | _ \<Rightarrow> False)"

definition has_content :: "json \<Rightarrow> bool" where
  "has_content item =
     (case item of JDict kvs \<Rightarrow> get_list kvs ''content'' \<noteq> None | _ \<Rightarrow> False)"

definition text_items :: "json list \<Rightarrow> nat" where
  "text_items content = length (filter has_text content)"

definition nested_content_items :: "json list \<Rightarrow> nat" where
  "nested_content_items content = length (filter has_content content)"

definition is_leaf_node :: "(string \<times> json) list \<Rightarrow> bool" where
  "is_leaf_node kvs =
     (if (case get_str kvs ''text'' of Some s \<Rightarrow> py_strip s \<noteq> [] | None \<Rightarrow> False) then True
      else (case get_list kvs ''content'' of
              Some content \<Rightarrow> 0 < text_items content \<and> nested_content_items content = 0
            | None \<Rightarrow> False))"

definition is_container :: "json \<Rightarrow> bool" where
  "is_container v = (case v of JDict _ \<Rightarrow> True | JList _ \<Rightarrow> True | _ \<Rightarrow> False)"

text \<open>
  \<^verbatim>\<open>flatten_nodes_to_list(node, result)\<close> appends to \<^verbatim>\<open>result\<close>; the model returns
  what one call appends, in the order of the appends. The path arguments only build
  strings that are never read.
\<close>

function flatten_nodes_to_list :: "json \<Rightarrow> flat_node list" where
  "flatten_nodes_to_list (JDict kvs) =
     (if is_leaf_node kvs \<and> get_node_id kvs \<noteq> JNull then
        (case get_str kvs ''text'' of
           Some s \<Rightarrow> [\<lparr>node_id = get_node_id kvs, node_text = s\<rparr>]
         | None \<Rightarrow>
             (case get_list kvs ''content'' of
                Some content \<Rightarrow>
                  (let text_content = extract_text_from_content content
                   in if text_content \<noteq> []
                      then [\<lparr>node_id = get_node_id kvs, node_text = text_content\<rparr>]
                      else [])
              | None \<Rightarrow> []))
      else
        (case get_list kvs ''children'' of
           Some children \<Rightarrow> concat (map flatten_nodes_to_list children)
         | None \<Rightarrow> [])
        @ (case get_list kvs ''content'' of
             Some content \<Rightarrow> concat (map flatten_nodes_to_list content)
           | None \<Rightarrow> [])
        @ concat (map (\<lambda>kv.
            if fst kv \<notin> {''id'', ''text'', ''children'', ''content'', ''attrs''} \<and> is_container (snd kv)
            then flatten_nodes_to_list (snd kv) else []) kvs))"
| "flatten_nodes_to_list (JList xs) = concat (map flatten_nodes_to_list xs)"
| "flatten_nodes_to_list JNull = []"
| "flatten_nodes_to_list (JBool b) = []"
| "flatten_nodes_to_list (JNum n) = []"
| "flatten_nodes_to_list (JStr s) = []"
  by pat_completeness auto

termination
proof (relation "measure jsize", goal_cases)
  case 1
  show ?case by simp
next
  case (2 kvs children x)
  from 2(2) have "sum_list (map jsize children) < items_size kvs" by (rule jsize_get_list)
  with jsize_member [OF 2(3)] show ?case by (simp add: items_size_def)
next
  case (3 kvs content x)
  from 3(2) have "sum_list (map jsize content) < items_size kvs" by (rule jsize_get_list)
  with jsize_member [OF 3(3)] show ?case by (simp add: items_size_def)
next
  case (4 kvs kv)
  from jsize_item [OF 4(2)] show ?case by (simp add: items_size_def)
next
  case (5 xs x)
  from jsize_member [OF 5] show ?case by simp
qed


section \<open>Dump/Render: \<^verbatim>\<open>dump_flattened_nodes\<close>\<close>

text \<open>
  The f-string \<^verbatim>\<open>f"[ID:{node_id}] {text}"\<close> formats the id with \<^verbatim>\<open>str()\<close>. A
  \<^verbatim>\<open>str\<close> id is inserted as it is; \<open>str_of\<close> stands for Python's built-in
  \<^verbatim>\<open>str()\<close> on every other value.
\<close>

definition format_id :: "(json \<Rightarrow> string) \<Rightarrow> json \<Rightarrow> string" where
  "format_id str_of v = (case v of JStr s \<Rightarrow> s | _ \<Rightarrow> str_of v)"

definition render_line :: "(json \<Rightarrow> string) \<Rightarrow> flat_node \<Rightarrow> string" where
  "render_line str_of node = ''[ID:'' @ format_id str_of (node_id node) @ ''] '' @ node_text node"

definition dump_flattened_nodes :: "(json \<Rightarrow> string) \<Rightarrow> flat_node list \<Rightarrow> string" where
  "dump_flattened_nodes str_of flattened = py_join [CHR 0x0A] (map (render_line str_of) flattened)"

section \<open>Edit Reconciler: \<^verbatim>\<open>_parse_edited_content\<close>\<close>

record path_update =
  path :: "string option"
  content :: string
  update_id :: string

text \<open>The character class \<^verbatim>\<open>[a-zA-Z0-9]\<close>.\<close>

definition is_alnum :: "char \<Rightarrow> bool" where
  "is_alnum c = (c \<in> set ''abcdefghijklmnopqrstuvwxyzABCDEFGHIJKLMNOPQRSTUVWXYZ0123456789'')"

definition starts_with :: "string \<Rightarrow> string \<Rightarrow> bool" where
  "starts_with p s = (take (length p) s = p)"

text \<open>
  The pattern \<^verbatim>\<open>\[ID:?\s*([a-zA-Z0-9]+)\]\<close> matched at the start of \<open>s\<close>: the result is
  group 1 and what follows the match. The colon and the two repetitions are greedy, and
  no shorter choice can succeed: a colon is neither white space nor alphanumeric, white
  space is not alphanumeric, and an alphanumeric character is not the closing bracket.
\<close>

definition match_id_pattern :: "string \<Rightarrow> (string \<times> string) option" where
  "match_id_pattern s =
     (if starts_with ''[ID'' s then
        (let r1 = drop 3 s;
             r2 = (case r1 of c # cs \<Rightarrow> if c = CHR '':'' then cs else r1 | [] \<Rightarrow> r1);
             r3 = dropWhile is_space r2;
             g = takeWhile is_alnum r3;
             r4 = dropWhile is_alnum r3
         in (case r4 of
               c # rest \<Rightarrow> if g \<noteq> [] \<and> c = CHR '']'' then Some (g, rest) else None
             | [] \<Rightarrow> None))
      else None)"

text \<open>
  \<^verbatim>\<open>re.search(id_pattern, s)\<close>: the leftmost match, as the text before it, group 1
  and the text after it. \<^verbatim>\<open>re.sub(id_pattern, '', s, 1)\<close> removes that same match.
\<close>

fun search_id_pattern :: "string \<Rightarrow> (string \<times> string \<times> string) option" where
  "search_id_pattern [] = None"
| "search_id_pattern (c # cs) =
     (case match_id_pattern (c # cs) of
        Some (g, rest) \<Rightarrow> Some ([], g, rest)
      | None \<Rightarrow>
          (case search_id_pattern cs of
             Some (pre, g, rest) \<Rightarrow> Some (c # pre, g, rest)
           | None \<Rightarrow> None))"

text \<open>
  The loop state: the list \<^verbatim>\<open>path_updates\<close>, the set \<^verbatim>\<open>processed_ids\<close>, and the
  number of calls of \<^verbatim>\<open>uuid.uuid4()\<close> made so far.
\<close>

record parse_state =
  path_updates :: "path_update list"
  processed_ids :: "string set"
  uuid_calls :: nat

definition initial_state :: parse_state where
  "initial_state = \<lparr>path_updates = [], processed_ids = {}, uuid_calls = 0\<rparr>"

text \<open>
  \<^verbatim>\<open>original_nodes_by_id[key]\<close> for a \<^verbatim>\<open>str\<close> key: the dict comprehension keeps the
  last node of each id.
\<close>

definition lookup_original :: "flat_node list \<Rightarrow> string \<Rightarrow> flat_node option" where
  "lookup_original original_nodes key = find (\<lambda>node. node_id node = JStr key) (rev original_nodes)"

text \<open>
  What one line says, for a line already stripped: whether it starts with \<^verbatim>\<open>[NEW]\<close>,
  the id of its \<^verbatim>\<open>[ID:...]\<close> tag, and the text that remains. The id taken from the tag
  is used only where it is truthy, so an empty one counts as absent.
\<close>

definition parse_line :: "string \<Rightarrow> bool \<times> string option \<times> string" where
  "parse_line current_paragraph_stripped =
     (let is_new_node = starts_with ''[NEW]'' current_paragraph_stripped;
          content_after_new_tag_processing =
            (if is_new_node then py_strip (drop 5 current_paragraph_stripped)
             else current_paragraph_stripped);
          id_match = search_id_pattern content_after_new_tag_processing;
          parsed_node_id_from_tag =
            (case id_match of
               Some (pre, g, rest) \<Rightarrow> (if py_strip g = [] then None else Some (py_strip g))
             | None \<Rightarrow> None);
          stripped_content =
            (case id_match of
               Some (pre, g, rest) \<Rightarrow> py_strip (pre @ rest)
             | None \<Rightarrow> content_after_new_tag_processing);
          final_text_content = (if stripped_content = ''(empty)'' then [] else stripped_content)
      in (is_new_node, parsed_node_id_from_tag, final_text_content))"

text \<open>
  One iteration of the loop over the lines. \<open>uuid4 k\<close> is \<^verbatim>\<open>str(uuid.uuid4())\<close> of the
  call number \<open>k\<close>; it is called only for a \<^verbatim>\<open>[NEW]\<close> line without a tag.
\<close>

definition parse_paragraph :: "(nat \<Rightarrow> string) \<Rightarrow> flat_node list \<Rightarrow> string \<Rightarrow> parse_state \<Rightarrow> parse_state" where
  "parse_paragraph uuid4 original_nodes paragraph_text st =
     (let current_paragraph_stripped = py_strip paragraph_text in
      if current_paragraph_stripped = [] then st
      else
        (case parse_line current_paragraph_stripped of
           (is_new_node, parsed_node_id_from_tag, final_text_content) \<Rightarrow>
             if is_new_node then
               (case parsed_node_id_from_tag of
                  None \<Rightarrow>
                    st\<lparr>path_updates := path_updates st @
                         [\<lparr>path = Some ''new'', content = final_text_content,
                           update_id = take 4 (uuid4 (uuid_calls st))\<rparr>],
                       uuid_calls := Suc (uuid_calls st)\<rparr>
                | Some tag \<Rightarrow>
                    if tag \<in> processed_ids st then st
                    else st\<lparr>path_updates := path_updates st @
                           [\<lparr>path = Some ''new'', content = final_text_content, update_id = tag\<rparr>],
                         processed_ids := insert tag (processed_ids st)\<rparr>)
             else
               (case parsed_node_id_from_tag of
                  None \<Rightarrow> st
                | Some tag \<Rightarrow>
                    if tag \<in> processed_ids st then st
                    else if starts_with ''[ID:'' final_text_content \<and> length final_text_content < 15 then st
                    else
                      (case lookup_original original_nodes tag of
                         Some original_node \<Rightarrow>
                           if final_text_content \<noteq> node_text original_node
                           then st\<lparr>path_updates := path_updates st @
                                  [\<lparr>path = None, content = final_text_content, update_id = tag\<rparr>],
                                processed_ids := insert tag (processed_ids st)\<rparr>
                           else st\<lparr>processed_ids := insert tag (processed_ids st)\<rparr>
                       | None \<Rightarrow> st\<lparr>processed_ids := insert tag (processed_ids st)\<rparr>))))"

definition parse_paragraphs :: "(nat \<Rightarrow> string) \<Rightarrow> flat_node list \<Rightarrow> string list \<Rightarrow> parse_state \<Rightarrow> parse_state" where
  "parse_paragraphs uuid4 original_nodes paragraphs st = fold (parse_paragraph uuid4 original_nodes) paragraphs st"

datatype pyexc =
    UnhashableType
  | UnboundLocal string
  | ServiceError string

text \<open>
  \<^verbatim>\<open>_parse_edited_content(edited_content, original_nodes)\<close>. Building
  \<^verbatim>\<open>original_nodes_by_id\<close> raises \<^verbatim>\<open>TypeError\<close> when an id is a list or a dict.
\<close>

definition parse_edited_content :: "(nat \<Rightarrow> string) \<Rightarrow> string \<Rightarrow> flat_node list \<Rightarrow> pyexc + path_update list" where
  "parse_edited_content uuid4 edited_content original_nodes =
     (if list_ex (\<lambda>node. is_container (node_id node)) original_nodes then Inl UnhashableType
      else Inr (path_updates
                 (parse_paragraphs uuid4 original_nodes (split_nl edited_content) initial_state)))"

section \<open>Pipeline Orchestrator: \<^verbatim>\<open>process_jsonnode\<close>\<close>

datatype rvalue =
    RStr string
  | RErr pyexc
  | RUpdates "path_update list"

text \<open>
  The name \<^verbatim>\<open>logging\<close> in \<^verbatim>\<open>process_jsonnode\<close>. The only binding of the name is the
  statement \<^verbatim>\<open>import logging\<close> inside the \<^verbatim>\<open>except\<close> block, which makes it a local
  variable of the whole function; the module imports no \<^verbatim>\<open>logging\<close>. Inside the
  \<^verbatim>\<open>try\<close> block the local is still unbound, so evaluating \<^verbatim>\<open>logging.error(...)\<close> there
  raises \<^verbatim>\<open>UnboundLocalError\<close>.
\<close>

definition logging_error_in_try :: "pyexc + unit" where
  "logging_error_in_try = Inl (UnboundLocal ''logging'')"

text \<open>The message of the empty-output result (a Chinese literal in the source).\<close>

definition empty_output_message :: string where
  "empty_output_message = ''LLM returned empty content, cannot parse''"

text \<open>
  \<^verbatim>\<open>process_jsonnode(jsonnode, message, selected_text, selected_nodes_ids, chat_history)\<close>.
  \<open>generate_text\<close> is the text generation service: it receives the three strings that the
  prompt template is filled with (the dump, the message, the dump of the selected
  paragraphs) and the chat history, and returns the text or raises. A result dict is an
  association list; \<open>RErr e\<close> is \<^verbatim>\<open>str(e)\<close>.
\<close>

definition process_jsonnode ::
  "(json \<Rightarrow> string) \<Rightarrow> (nat \<Rightarrow> string) \<Rightarrow> (string \<Rightarrow> string \<Rightarrow> string \<Rightarrow> 'h \<Rightarrow> pyexc + string)
    \<Rightarrow> json \<Rightarrow> string \<Rightarrow> string list \<Rightarrow> 'h \<Rightarrow> (string \<times> rvalue) list" where
  "process_jsonnode str_of uuid4 generate_text jsonnode message selected_nodes_ids chat_history =
     (let flattened = flatten_nodes_to_list jsonnode;
          dumpstr = dump_flattened_nodes str_of flattened;
          flattened_selected = filter (\<lambda>node. node_id node \<in> JStr ` set selected_nodes_ids) flattened;
          selected_paragraphs = dump_flattened_nodes str_of flattened_selected;
          try_block =
            (case generate_text dumpstr message selected_paragraphs chat_history of
               Inl e \<Rightarrow> Inl e
             | Inr edited_content \<Rightarrow>
                 if length edited_content = 0 then
                   (case logging_error_in_try of
                      Inl e \<Rightarrow> Inl e
                    | Inr _ \<Rightarrow> Inr [(''error'', RStr empty_output_message), (''message'', RStr message)])
                 else
                   (case parse_edited_content uuid4 edited_content flattened of
                      Inl e \<Rightarrow> Inl e
                    | Inr updates \<Rightarrow>
                        Inr [(''original'', RStr dumpstr), (''edited'', RStr edited_content),
                             (''message'', RStr message), (''path_updates'', RUpdates updates)]))
      in (case try_block of
            Inr result \<Rightarrow> result
          | Inl e \<Rightarrow> [(''original'', RStr dumpstr), (''error'', RErr e), (''message'', RStr message)]))"


section \<open>Predicates used in the statements\<close>

text \<open>
  A deletion line: after stripping, \<^verbatim>\<open>[DELETE:\<close>, then letters, digits and white space,
  then the closing bracket.
\<close>

definition is_delete_line :: "string \<Rightarrow> bool" where
  "is_delete_line paragraph_text =
     (let s = py_strip paragraph_text in
      starts_with ''[DELETE:'' s \<and>
      (case rev (drop 8 s) of
         c # middle \<Rightarrow> c = CHR '']'' \<and> list_all (\<lambda>x. is_alnum x \<or> is_space x) middle
       | [] \<Rightarrow> False))"

text \<open>A string without leading or trailing white space.\<close>

definition trimmed :: "string \<Rightarrow> bool" where
  "trimmed s = (s = [] \<or> (\<not> is_space (hd s) \<and> \<not> is_space (last s)))"

text \<open>
  A flat node that survives rendering and parsing: its id is a non-empty alphanumeric
  string, its text has no line break and no white space at either end, and is not the
  placeholder \<^verbatim>\<open>(empty)\<close>.
\<close>

definition round_trip_node :: "flat_node \<Rightarrow> bool" where
  "round_trip_node node =
     ((case node_id node of JStr s \<Rightarrow> s \<noteq> [] \<and> list_all is_alnum s | _ \<Rightarrow> False)
      \<and> CHR 0x0A \<notin> set (node_text node)
      \<and> py_strip (node_text node) = node_text node
      \<and> node_text node \<noteq> ''(empty)'')"

text \<open>
  The id of the tag of a line, the lines for which an id is synthesized, the ids tagged
  in a response and the ids synthesized for it, in the order of the calls.
\<close>

definition line_tag :: "string \<Rightarrow> string option" where
  "line_tag paragraph_text = fst (snd (parse_line (py_strip paragraph_text)))"

definition is_untagged_new :: "string \<Rightarrow> bool" where
  "is_untagged_new paragraph_text =
     (py_strip paragraph_text \<noteq> [] \<and> fst (parse_line (py_strip paragraph_text))
      \<and> line_tag paragraph_text = None)"

definition tagged_ids :: "string \<Rightarrow> string list" where
  "tagged_ids edited_content = List.map_filter line_tag (split_nl edited_content)"

definition synthesized_ids :: "(nat \<Rightarrow> string) \<Rightarrow> string \<Rightarrow> string list" where
  "synthesized_ids uuid4 edited_content =
     map (\<lambda>k. take 4 (uuid4 k)) [0..<length (filter is_untagged_new (split_nl edited_content))]"

text \<open>
  The invariant of the loop over the lines: the ids of the updates are pairwise
  distinct, each is a processed id or a synthesized one, and every processed id is one
  of the ids \<open>T\<close> tagged in the response.
\<close>

definition ids_invariant :: "(nat \<Rightarrow> string) \<Rightarrow> string set \<Rightarrow> parse_state \<Rightarrow> bool" where
  "ids_invariant uuid4 T st =
     (distinct (map update_id (path_updates st))
      \<and> set (map update_id (path_updates st))
          \<subseteq> processed_ids st \<union> (\<lambda>k. take 4 (uuid4 k)) ` {0..<uuid_calls st}
      \<and> processed_ids st \<subseteq> T)"

text \<open>
  The node reached from the root by a path of positions: the position of an entry in a
  dict, the index of an item in a list.
\<close>

fun node_at :: "json \<Rightarrow> nat list \<Rightarrow> json option" where
  "node_at t [] = Some t"
| "node_at (JDict kvs) (i # p) = (if i < length kvs then node_at (snd (kvs ! i)) p else None)"
| "node_at (JList xs) (i # p) = (if i < length xs then node_at (xs ! i) p else None)"
| "node_at t (i # p) = None"

text \<open>
  The text that the flattener emits for a leaf dict, and the flat nodes of a tree that
  come from a leaf dict with an id of its own.
\<close>

definition leaf_text :: "(string \<times> json) list \<Rightarrow> string" where
  "leaf_text kvs =
     (case get_str kvs ''text'' of
        Some s \<Rightarrow> s
      | None \<Rightarrow>
          (case get_list kvs ''content'' of
             Some cts \<Rightarrow> extract_text_from_content cts
           | None \<Rightarrow> []))"

definition emitted_from :: "json \<Rightarrow> flat_node \<Rightarrow> bool" where
  "emitted_from t node =
     (\<exists>p kvs. node_at t p = Some (JDict kvs) \<and> is_leaf_node kvs \<and> get_node_id kvs \<noteq> JNull
        \<and> node = \<lparr>node_id = get_node_id kvs, node_text = leaf_text kvs\<rparr>)"

section \<open>Properties of the Node Identifier\<close>

lemma map_of_dict_set_same: "map_of (dict_set k v kvs) k = Some v"
  by (induction kvs) auto

lemma frame_items_str:
  "frame_items a b \<Longrightarrow> map_of a k = Some (JStr s) \<Longrightarrow> map_of b k = Some (JStr s)"
proof (induction a arbitrary: b)
  case Nil
  then show ?case by simp
next
  case (Cons kv a)
  obtain k0 v0 where kv: "kv = (k0, v0)" by (cases kv)
  from Cons.prems(1) kv obtain v1 rest where b: "b = (k0, v1) # rest"
    and fv: "frame v0 v1" and fr: "frame_items a rest"
    by (auto split: list.splits)
  show ?case
  proof (cases "k0 = k")
    case True
    with Cons.prems(2) kv have "v0 = JStr s" by simp
    with fv have "v1 = JStr s" by simp
    with True b show ?thesis by simp
  next
    case False
    with Cons.prems(2) kv have "map_of a k = Some (JStr s)" by simp
    from Cons.IH [OF fr this] False b show ?thesis by simp
  qed
qed

lemma add_ids_frame_all:
  "(\<forall>t' ds' ex'. add_ids_to_nodes t ds ex = Some (t', ds', ex') \<longrightarrow> frame t t')"
  "(\<forall>kvs' ds' ex'. add_ids_items kvs ds ex = Some (kvs', ds', ex') \<longrightarrow> frame_items kvs kvs')"
  "(\<forall>ys ds' ex'. add_ids_list xs ds ex = Some (ys, ds', ex') \<longrightarrow> frame_list xs ys)"
proof (induction t ds ex and kvs ds ex and xs ds ex rule: add_ids_to_nodes_add_ids_items_add_ids_list.induct)
  case (1 kvs ds ex)
  show ?case
  proof (intro allI impI)
    fix t' ds' ex'
    assume r: "add_ids_to_nodes (JDict kvs) ds ex = Some (t', ds', ex')"
    show "frame (JDict kvs) t'"
    proof (cases "needs_id kvs")
      case True
      with r obtain new_id ds1 kvs' where g: "generate_random_hex_id ds ex = Some (new_id, ds1)"
        and it: "add_ids_items (dict_set ''id'' (JStr new_id) kvs) ds1 (insert new_id ex) = Some (kvs', ds', ex')"
        and t': "t' = JDict kvs'"
        by (auto split: option.splits)
      from "1.IH"(1) [OF True g refl] it
      have fi: "frame_items (dict_set ''id'' (JStr new_id) kvs) kvs'" by blast
      have "map_of kvs' ''id'' = Some (JStr new_id)"
        by (rule frame_items_str [OF fi map_of_dict_set_same])
      then have "dict_get kvs' ''id'' = JStr new_id" by (simp add: dict_get_def)
      with fi True t' show ?thesis by simp
    next
      case False
      with r obtain kvs' where it: "add_ids_items kvs ds ex = Some (kvs', ds', ex')"
        and t': "t' = JDict kvs'"
        by (auto split: option.splits)
      from "1.IH"(2) [OF False] it have "frame_items kvs kvs'" by blast
      with False t' show ?thesis by simp
    qed
  qed
next
  case (2 xs ds ex)
  then show ?case by (auto split: option.splits)
next
  case (8 k v kvs ds ex)
  then show ?case by (auto split: option.splits)
next
  case (10 x xs ds ex)
  then show ?case by (auto split: option.splits)
qed simp_all

lemma hex4_10: "hex4 10 = ''000a''" by (simp add: hex4_def hex_digit_def)
lemma hex4_161: "hex4 161 = ''00a1''" by (simp add: hex4_def hex_digit_def)
lemma hex4_0: "hex4 0 = ''0000''" by (simp add: hex4_def hex_digit_def)

lemma frame_items_nth:
  "frame_items a b \<Longrightarrow> length b = length a \<and>
     (\<forall>i < length a. fst (b ! i) = fst (a ! i) \<and> frame (snd (a ! i)) (snd (b ! i)))"
proof (induction a arbitrary: b)
  case Nil
  then show ?case by simp
next
  case (Cons kv a)
  obtain k v where kv: "kv = (k, v)" by (cases kv)
  from Cons.prems kv obtain v' rest where b: "b = (k, v') # rest"
    and fv: "frame v v'" and fr: "frame_items a rest"
    by (auto split: list.splits)
  from Cons.IH [OF fr] have len: "length rest = length a"
    and nth: "\<forall>i < length a. fst (rest ! i) = fst (a ! i) \<and> frame (snd (a ! i)) (snd (rest ! i))"
    by simp_all
  show ?case
  proof (intro conjI allI impI)
    show "length b = length (kv # a)" by (simp add: b len)
  next
    fix i assume "i < length (kv # a)"
    then show "fst (b ! i) = fst ((kv # a) ! i)" using nth by (cases i) (simp_all add: b kv)
  next
    fix i assume "i < length (kv # a)"
    then show "frame (snd ((kv # a) ! i)) (snd (b ! i))" using nth fv by (cases i) (simp_all add: b kv)
  qed
qed

lemma frame_list_nth:
  "frame_list xs ys \<Longrightarrow> length ys = length xs \<and> (\<forall>i < length xs. frame (xs ! i) (ys ! i))"
proof (induction xs arbitrary: ys)
  case Nil
  then show ?case by simp
next
  case (Cons x xs)
  from Cons.prems obtain y rest where ys: "ys = y # rest"
    and fx: "frame x y" and fr: "frame_list xs rest"
    by (auto split: list.splits)
  from Cons.IH [OF fr] have len: "length rest = length xs"
    and nth: "\<forall>i < length xs. frame (xs ! i) (rest ! i)"
    by simp_all
  show ?case
  proof (intro conjI allI impI)
    show "length ys = length (x # xs)" by (simp add: ys len)
  next
    fix i assume "i < length (x # xs)"
    then show "frame ((x # xs) ! i) (ys ! i)" using nth fx by (cases i) (simp_all add: ys)
  qed
qed

lemma frame_items_map_of:
  "frame_items a b \<Longrightarrow> map_of a k = Some v \<Longrightarrow> \<exists>v'. map_of b k = Some v' \<and> frame v v'"
proof (induction a arbitrary: b)
  case Nil
  then show ?case by simp
next
  case (Cons kv a)
  obtain k0 v0 where kv: "kv = (k0, v0)" by (cases kv)
  from Cons.prems(1) kv obtain v1 rest where b: "b = (k0, v1) # rest"
    and fv: "frame v0 v1" and fr: "frame_items a rest"
    by (auto split: list.splits)
  show ?case
  proof (cases "k0 = k")
    case True
    with Cons.prems(2) kv have "v0 = v" by simp
    with fv True b show ?thesis by simp
  next
    case False
    with Cons.prems(2) kv have "map_of a k = Some v" by simp
    from Cons.IH [OF fr this] False b show ?thesis by simp
  qed
qed

lemma dict_set_length: "length kvs \<le> length (dict_set k v kvs)"
  by (induction kvs) auto

lemma dict_set_nth:
  "i < length kvs \<Longrightarrow>
     dict_set k v kvs ! i = kvs ! i \<or> map_of kvs k = Some (snd (kvs ! i))"
proof (induction kvs arbitrary: i)
  case Nil
  then show ?case by simp
next
  case (Cons kv kvs)
  obtain k0 v0 where kv: "kv = (k0, v0)" by (cases kv)
  show ?case
  proof (cases "k0 = k")
    case True
    then show ?thesis using Cons.prems kv by (cases i) simp_all
  next
    case False
    show ?thesis
    proof (cases i)
      case 0
      with False kv show ?thesis by simp
    next
      case (Suc j)
      with Cons.prems have "j < length kvs" by simp
      from Cons.IH [OF this] False kv Suc show ?thesis by auto
    qed
  qed
qed

lemma node_at_falsy:
  "\<not> truthy v \<Longrightarrow> node_at v p = Some n \<Longrightarrow> \<not> truthy n"
  by (cases v; cases p) (auto split: if_splits)

lemma frame_node_at:
  "frame t t' \<Longrightarrow> node_at t p = Some n \<Longrightarrow> truthy n
     \<Longrightarrow> \<exists>n'. node_at t' p = Some n' \<and> frame n n'"
proof (induction p arbitrary: t t')
  case Nil
  then show ?case by simp
next
  case (Cons i p)
  show ?case
  proof (cases t)
    case (JDict kvs)
    with Cons.prems(2) have i: "i < length kvs" and sub: "node_at (snd (kvs ! i)) p = Some n"
      by (auto split: if_splits)
    from Cons.prems(1) JDict obtain kvs' where t': "t' = JDict kvs'"
      by (auto split: json.splits)
    have "i < length kvs' \<and> frame (snd (kvs ! i)) (snd (kvs' ! i))"
    proof (cases "needs_id kvs")
      case False
      with Cons.prems(1) JDict t' have "frame_items kvs kvs'" by simp
      from frame_items_nth [OF this] i show ?thesis by simp
    next
      case True
      with Cons.prems(1) JDict t' obtain new_id where
        fi: "frame_items (dict_set ''id'' (JStr new_id) kvs) kvs'"
        by (auto split: json.splits)
      from dict_set_length [of kvs "''id''" "JStr new_id"] i
      have i2: "i < length (dict_set ''id'' (JStr new_id) kvs)" by simp
      from frame_items_nth [OF fi] i2
      have len: "i < length kvs'"
        and fr: "frame (snd (dict_set ''id'' (JStr new_id) kvs ! i)) (snd (kvs' ! i))"
        by simp_all
      from dict_set_nth [OF i, of "''id''" "JStr new_id"]
      show ?thesis
      proof
        assume "dict_set ''id'' (JStr new_id) kvs ! i = kvs ! i"
        with len fr show ?thesis by simp
      next
        assume "map_of kvs ''id'' = Some (snd (kvs ! i))"
        then have "dict_get kvs ''id'' = snd (kvs ! i)" by (simp add: dict_get_def)
        with True have "\<not> truthy (snd (kvs ! i))" by (simp add: needs_id_def)
        from node_at_falsy [OF this sub] Cons.prems(3) show ?thesis by simp
      qed
    qed
    then have len: "i < length kvs'" and fr: "frame (snd (kvs ! i)) (snd (kvs' ! i))" by simp_all
    from Cons.IH [OF fr sub Cons.prems(3)] len t' show ?thesis by simp
  next
    case (JList xs)
    with Cons.prems(2) have i: "i < length xs" and sub: "node_at (xs ! i) p = Some n"
      by (auto split: if_splits)
    from Cons.prems(1) JList obtain ys where t': "t' = JList ys" and fl: "frame_list xs ys"
      by (auto split: json.splits)
    from frame_list_nth [OF fl] i have len: "i < length ys" and fr: "frame (xs ! i) (ys ! i)"
      by simp_all
    from Cons.IH [OF fr sub Cons.prems(3)] len t' show ?thesis by simp
  qed (use Cons.prems(2) in simp_all)
qed

lemma frame_scalar: "\<not> is_container v \<Longrightarrow> frame v v' \<Longrightarrow> v' = v"
  by (cases v) (simp_all add: is_container_def)

lemma frame_keeps_scalar_id:
  assumes fr: "frame t t'"
    and at: "node_at t p = Some (JDict kvs)"
    and id: "map_of kvs ''id'' = Some v" "truthy v" "\<not> is_container v"
  shows "\<exists>kvs'. node_at t' p = Some (JDict kvs') \<and> map_of kvs' ''id'' = Some v"
proof -
  from id(1) have "kvs \<noteq> []" by auto
  then have "truthy (JDict kvs)" by simp
  from frame_node_at [OF fr at this] obtain n' where n': "node_at t' p = Some n'"
    and f: "frame (JDict kvs) n'" by blast
  from id(1,2) have nn: "\<not> needs_id kvs" by (simp add: needs_id_def dict_get_def)
  from f nn obtain kvs' where k: "n' = JDict kvs'" and fi: "frame_items kvs kvs'"
    by (auto split: json.splits)
  from frame_items_map_of [OF fi id(1)] obtain v' where v': "map_of kvs' ''id'' = Some v'" "frame v v'"
    by blast
  from frame_scalar [OF id(3) v'(2)] v'(1) n' k show ?thesis by simp
qed

text \<open>
  Claim C10 (frame property of the id assignment) fails in its last clause: the value
  under \<^verbatim>\<open>id\<close> is traversed like every other value, so a truthy id that is itself a dict
  with a \<^verbatim>\<open>type\<close> key receives an \<^verbatim>\<open>id\<close> key and is no longer the id the node had.
\<close>

theorem add_ids_changes_container_id_counterexample:
  "add_ids_to_nodes
     (JDict [(''type'', JStr ''paragraph''), (''id'', JDict [(''type'', JStr ''x'')])]) [0] {}
   = Some (JDict [(''type'', JStr ''paragraph''),
                  (''id'', JDict [(''type'', JStr ''x''), (''id'', JStr ''0000'')])],
           [], {''0000''})
   \<and> truthy (JDict [(''type'', JStr ''x'')])
   \<and> JDict [(''type'', JStr ''x''), (''id'', JStr ''0000'')] \<noteq> JDict [(''type'', JStr ''x'')]"
  by (simp add: needs_id_def has_key_def dict_get_def hex4_0)

text \<open>
  Claim C10, amended. Whenever \<^verbatim>\<open>add_ids_to_nodes\<close> returns, its result is the input
  tree in which the dicts that have a \<^verbatim>\<open>type\<close> key and no truthy \<^verbatim>\<open>id\<close> have received an
  \<^verbatim>\<open>id\<close> string, and nothing else has changed: every other key and value, the order of
  the keys and of the list items are the same. Every node, at any depth, whose \<^verbatim>\<open>id\<close> is
  truthy and a scalar (a string, a number, a boolean) keeps exactly that id.
\<close>

theorem add_ids_frame:
  assumes "add_ids_to_nodes t ds ex = Some (t', ds', ex')"
  shows "frame t t'
    \<and> (\<forall>p kvs v. node_at t p = Some (JDict kvs) \<and> map_of kvs ''id'' = Some v
            \<and> truthy v \<and> \<not> is_container v
          \<longrightarrow> (\<exists>kvs'. node_at t' p = Some (JDict kvs') \<and> map_of kvs' ''id'' = Some v))"
proof -
  from assms have fr: "frame t t'" using add_ids_frame_all(1) by blast
  with frame_keeps_scalar_id show ?thesis by blast
qed

theorem add_ids_frame_witness:
  "add_ids_to_nodes
     (JDict [(''type'', JStr ''doc''), (''content'', JList [
        JDict [(''type'', JStr ''paragraph''), (''id'', JStr ''a1''), (''text'', JStr ''Hello'')],
        JDict [(''type'', JStr ''paragraph''), (''text'', JStr ''World'')]])])
     [10, 161] {}
   = Some (JDict [(''type'', JStr ''doc''), (''content'', JList [
        JDict [(''type'', JStr ''paragraph''), (''id'', JStr ''a1''), (''text'', JStr ''Hello'')],
        JDict [(''type'', JStr ''paragraph''), (''text'', JStr ''World''), (''id'', JStr ''00a1'')]]),
        (''id'', JStr ''000a'')], [], {''000a'', ''00a1''})
   \<and> frame
     (JDict [(''type'', JStr ''doc''), (''content'', JList [
        JDict [(''type'', JStr ''paragraph''), (''id'', JStr ''a1''), (''text'', JStr ''Hello'')],
        JDict [(''type'', JStr ''paragraph''), (''text'', JStr ''World'')]])])
     (JDict [(''type'', JStr ''doc''), (''content'', JList [
        JDict [(''type'', JStr ''paragraph''), (''id'', JStr ''a1''), (''text'', JStr ''Hello'')],
        JDict [(''type'', JStr ''paragraph''), (''text'', JStr ''World''), (''id'', JStr ''00a1'')]]),
        (''id'', JStr ''000a'')])
   \<and> (\<exists>kvs'. node_at
        (JDict [(''type'', JStr ''doc''), (''content'', JList [
          JDict [(''type'', JStr ''paragraph''), (''id'', JStr ''a1''), (''text'', JStr ''Hello'')],
          JDict [(''type'', JStr ''paragraph''), (''text'', JStr ''World''), (''id'', JStr ''00a1'')]]),
          (''id'', JStr ''000a'')]) [1, 0] = Some (JDict kvs')
        \<and> map_of kvs' ''id'' = Some (JStr ''a1''))"
proof -
  let ?t = "JDict [(''type'', JStr ''doc''), (''content'', JList [
        JDict [(''type'', JStr ''paragraph''), (''id'', JStr ''a1''), (''text'', JStr ''Hello'')],
        JDict [(''type'', JStr ''paragraph''), (''text'', JStr ''World'')]])]"
  let ?t' = "JDict [(''type'', JStr ''doc''), (''content'', JList [
        JDict [(''type'', JStr ''paragraph''), (''id'', JStr ''a1''), (''text'', JStr ''Hello'')],
        JDict [(''type'', JStr ''paragraph''), (''text'', JStr ''World''), (''id'', JStr ''00a1'')]]),
        (''id'', JStr ''000a'')]"
  have run: "add_ids_to_nodes ?t [10, 161] {} = Some (?t', [], {''000a'', ''00a1''})"
    by (simp add: needs_id_def has_key_def dict_get_def hex4_10 hex4_161 insert_commute)
  have pre: "node_at ?t [1, 0]
        = Some (JDict [(''type'', JStr ''paragraph''), (''id'', JStr ''a1''), (''text'', JStr ''Hello'')])
      \<and> map_of [(''type'', JStr ''paragraph''), (''id'', JStr ''a1''), (''text'', JStr ''Hello'')] ''id''
        = Some (JStr ''a1'')
      \<and> truthy (JStr ''a1'') \<and> \<not> is_container (JStr ''a1'')"
    by (simp add: is_container_def)
  note th = add_ids_frame [OF run]
  from th have fr: "frame ?t ?t'" by (rule conjunct1)
  from th [THEN conjunct2, rule_format, OF pre]
  have kept: "\<exists>kvs'. node_at ?t' [1, 0] = Some (JDict kvs') \<and> map_of kvs' ''id'' = Some (JStr ''a1'')" .
  from run fr kept show ?thesis by blast
qed

text \<open>
  Claim C3 (uniqueness of ids). The set \<^verbatim>\<open>existing_ids\<close> holds only the ids generated
  in this traversal: ids that the tree already carries are never added to it. With the
  draw \<open>0\<close> the first paragraph below receives the id \<^verbatim>\<open>0000\<close>, which the second
  paragraph already has, and the result carries the same id twice.
\<close>

theorem add_ids_reuses_present_id:
  "add_ids_to_nodes
     (JList [JDict [(''type'', JStr ''paragraph'')],
             JDict [(''type'', JStr ''paragraph''), (''id'', JStr ''0000'')]])
     [0] {}
   = Some (JList [JDict [(''type'', JStr ''paragraph''), (''id'', JStr ''0000'')],
                  JDict [(''type'', JStr ''paragraph''), (''id'', JStr ''0000'')]],
           [], {''0000''})"
  by (simp add: needs_id_def has_key_def dict_get_def hex4_0)

section \<open>Properties of the Tree Flattener\<close>

text \<open>
  Claim C9 (no blank flat node). A node whose \<^verbatim>\<open>text\<close> is a blank string fails the
  direct-text test but can pass the content-array test; the emitting branch then tests
  only that \<^verbatim>\<open>text\<close> is a string and appends it, blank as it is.
\<close>

theorem flatten_emits_blank_text:
  "flatten_nodes_to_list
     (JDict [(''type'', JStr ''paragraph''), (''id'', JStr ''a1''), (''text'', JStr []),
             (''content'', JList [JDict [(''type'', JStr ''text''), (''text'', JStr ''x'')]])])
   = [\<lparr>node_id = JStr ''a1'', node_text = []\<rparr>]"
  by (simp add: is_leaf_node_def get_str_def get_list_def get_node_id_def text_items_def
      nested_content_items_def has_text_def has_content_def py_strip_def is_space_def)

section \<open>Properties of the Pipeline Orchestrator\<close>

text \<open>
  Claim C7 (empty generation). When the text generation service returns the empty
  string, the call of \<^verbatim>\<open>logging.error\<close> raises inside the \<^verbatim>\<open>try\<close> block, before the
  \<^verbatim>\<open>return\<close> of the two-key error result; the handler returns the three-key result
  with \<^verbatim>\<open>original\<close>, with the text of the \<^verbatim>\<open>UnboundLocalError\<close> as \<^verbatim>\<open>error\<close>, and
  with \<^verbatim>\<open>message\<close>.
\<close>

theorem process_empty_output_result:
  "process_jsonnode (\<lambda>v. []) (\<lambda>k. []) (\<lambda>dumpstr message selected history. Inr [])
     (JDict [(''type'', JStr ''paragraph''), (''id'', JStr ''a1''), (''text'', JStr ''Hello'')])
     ''make it formal'' [] ()
   = [(''original'', RStr ''[ID:a1] Hello''),
      (''error'', RErr (UnboundLocal ''logging'')),
      (''message'', RStr ''make it formal'')]"
  by (simp add: process_jsonnode_def logging_error_in_try_def dump_flattened_nodes_def render_line_def
      format_id_def is_leaf_node_def get_str_def get_list_def get_node_id_def py_strip_def is_space_def)

section \<open>Properties of the Edit Reconciler\<close>

subsection \<open>Lines and stripping\<close>

lemma split_nl_no_newline: "l \<in> set (split_nl s) \<Longrightarrow> CHR 0x0A \<notin> set l"
proof (induction s arbitrary: l)
  case Nil
  then show ?case by simp
next
  case (Cons c cs)
  then show ?case
    by (cases "split_nl cs") (auto split: if_splits)
qed

lemma split_nl_single: "CHR 0x0A \<notin> set l \<Longrightarrow> split_nl l = [l]"
  by (induction l) auto

lemma split_nl_append: "CHR 0x0A \<notin> set l \<Longrightarrow> split_nl (l @ CHR 0x0A # rest) = l # split_nl rest"
  by (induction l) auto

lemma split_nl_join:
  "ls \<noteq> [] \<Longrightarrow> \<forall>l \<in> set ls. CHR 0x0A \<notin> set l \<Longrightarrow> split_nl (py_join [CHR 0x0A] ls) = ls"
proof (induction "[CHR 0x0A]" ls rule: py_join.induct)
  case 1
  then show ?case by simp
next
  case (2 p)
  then show ?case by (simp add: split_nl_single)
next
  case (3 p q ps)
  then show ?case by (simp add: split_nl_append)
qed

lemma trimmed_strip: "trimmed s \<Longrightarrow> py_strip s = s"
proof (cases s)
  case Nil
  then show ?thesis by (simp add: py_strip_def)
next
  case (Cons c cs)
  assume "trimmed s"
  with Cons have h: "\<not> is_space c" and l: "\<not> is_space (last s)" by (auto simp: trimmed_def)
  from h Cons have d: "dropWhile is_space s = s" by simp
  from Cons have "rev s \<noteq> []" by simp
  then obtain y ys where r: "rev s = y # ys" by (cases "rev s") auto
  have "y = last s" using r Cons by (metis hd_rev list.sel(1) list.distinct(1))
  with l have "dropWhile is_space (y # ys) = y # ys" by simp
  then have "dropWhile is_space (rev s) = rev s" by (simp only: r)
  with d show ?thesis by (simp add: py_strip_def)
qed

lemma length_dropWhile_rev_le: "length (dropWhile P (rev xs)) \<le> length xs"
  by (metis length_dropWhile_le length_rev)

lemma strip_trimmed: "py_strip s = s \<Longrightarrow> trimmed s"
proof (cases s)
  case Nil
  then show ?thesis by (simp add: trimmed_def)
next
  case (Cons c cs)
  assume eq: "py_strip s = s"
  have h: "\<not> is_space c"
  proof
    assume "is_space c"
    with Cons have "dropWhile is_space s = dropWhile is_space cs" by simp
    then have "py_strip s = rev (dropWhile is_space (rev (dropWhile is_space cs)))"
      by (simp add: py_strip_def)
    then have "length (py_strip s) \<le> length (dropWhile is_space cs)"
      by (simp add: length_dropWhile_rev_le)
    also have "\<dots> \<le> length cs" by (rule length_dropWhile_le)
    finally show False using eq Cons by simp
  qed
  with Cons have d: "dropWhile is_space s = s" by simp
  have l: "\<not> is_space (last s)"
  proof
    assume sp: "is_space (last s)"
    from Cons obtain y ys where r: "rev s = y # ys" by (cases "rev s") auto
    have "y = last s" using r Cons by (metis hd_rev list.sel(1) list.distinct(1))
    with sp have "dropWhile is_space (y # ys) = dropWhile is_space ys" by simp
    then have "dropWhile is_space (rev s) = dropWhile is_space ys" by (simp only: r)
    with d have "length (py_strip s) = length (dropWhile is_space ys)" by (simp add: py_strip_def)
    also have "\<dots> \<le> length ys" by (rule length_dropWhile_le)
    also have "\<dots> < length s" using r by (metis length_rev length_Cons lessI)
    finally show False using eq by simp
  qed
  from h l Cons show ?thesis by (simp add: trimmed_def)
qed

lemma space_not_alnum: "is_space c \<Longrightarrow> \<not> is_alnum c"
  unfolding is_space_def by (elim insertE emptyE) (simp_all add: is_alnum_def)

lemma alnum_not_space: "is_alnum c \<Longrightarrow> \<not> is_space c"
  using space_not_alnum by blast

lemma close_not_alnum: "\<not> is_alnum CHR '']''"
  by (simp add: is_alnum_def)

lemma alnum_trimmed: "list_all is_alnum s \<Longrightarrow> trimmed s"
  by (cases s) (auto simp: trimmed_def list_all_iff alnum_not_space)

lemma match_rendered:
  assumes "s \<noteq> []" "list_all is_alnum s"
  shows "match_id_pattern (''[ID:'' @ s @ CHR '']'' # rest) = Some (s, rest)"
proof -
  from assms obtain c cs where s: "s = c # cs" by (cases s) auto
  with assms have c: "is_alnum c" by simp
  then have nsp: "\<not> is_space c" by (rule alnum_not_space)
  have tw: "takeWhile is_alnum (s @ CHR '']'' # rest) = s"
    using assms(2) by (simp add: list_all_iff close_not_alnum)
  have dw: "dropWhile is_alnum (s @ CHR '']'' # rest) = CHR '']'' # rest"
    using assms(2) by (simp add: list_all_iff close_not_alnum)
  have ds: "dropWhile is_space (s @ CHR '']'' # rest) = s @ CHR '']'' # rest"
    using nsp by (simp add: s)
  show ?thesis
    using assms(1) by (simp add: match_id_pattern_def starts_with_def ds tw dw)
qed

subsection \<open>Deletion lines\<close>

lemma match_id_pattern_needs_bracket: "match_id_pattern s = Some r \<Longrightarrow> hd s = CHR ''['' \<and> s \<noteq> []"
  by (cases s) (auto simp: match_id_pattern_def starts_with_def split: if_splits)

lemma search_no_bracket: "CHR ''['' \<notin> set s \<Longrightarrow> search_id_pattern s = None"
proof (induction s)
  case Nil
  then show ?case by simp
next
  case (Cons c cs)
  have "match_id_pattern (c # cs) = None"
  proof (cases "match_id_pattern (c # cs)")
    case None
    then show ?thesis .
  next
    case (Some r)
    from match_id_pattern_needs_bracket [OF Some] Cons.prems show ?thesis by simp
  qed
  with Cons show ?case by simp
qed

lemma bracket_not_alnum: "\<not> is_alnum CHR ''[''"
  by (simp add: is_alnum_def)

lemma bracket_not_space: "\<not> is_space CHR ''[''"
  by (simp add: is_space_def)

lemma alnum_not_bracket: "is_alnum c \<Longrightarrow> c \<noteq> CHR ''[''"
  using bracket_not_alnum by blast

lemma space_not_bracket: "is_space c \<Longrightarrow> c \<noteq> CHR ''[''"
  using bracket_not_space by blast

lemma starts_with_iff: "starts_with p s \<longleftrightarrow> (\<exists>r. s = p @ r)"
proof
  assume "starts_with p s"
  then have "s = p @ drop (length p) s"
    by (metis append_take_drop_id starts_with_def)
  then show "\<exists>r. s = p @ r" ..
next
  assume "\<exists>r. s = p @ r"
  then show "starts_with p s" by (auto simp: starts_with_def)
qed

lemma delete_line_parse:
  assumes "is_delete_line l"
  shows "py_strip l \<noteq> [] \<and> parse_line (py_strip l) = (False, None, py_strip l)"
proof -
  define s where "s = py_strip l"
  from assms have sw: "starts_with ''[DELETE:'' s"
    and tl: "(case rev (drop 8 s) of
         c # middle \<Rightarrow> c = CHR '']'' \<and> list_all (\<lambda>x. is_alnum x \<or> is_space x) middle
       | [] \<Rightarrow> False)"
    by (simp_all add: is_delete_line_def s_def Let_def)
  from sw obtain r where s_eq: "s = ''[DELETE:'' @ r"
    unfolding starts_with_iff by blast
  have d8: "drop 8 s = r" by (simp add: s_eq)
  from tl d8 obtain middle where rv: "rev r = CHR '']'' # middle"
    and mid: "list_all (\<lambda>x. is_alnum x \<or> is_space x) middle"
    by (auto split: list.splits)
  from rv have "rev (rev r) = rev (CHR '']'' # middle)" by simp
  then have r_eq: "r = rev middle @ '']''" by simp
  from mid have nb: "CHR ''['' \<notin> set r"
    using alnum_not_bracket space_not_bracket by (auto simp: r_eq list_all_iff)
  have ne: "s \<noteq> []" by (simp add: s_eq)
  have nn: "\<not> starts_with ''[NEW]'' s"
    by (simp add: s_eq starts_with_def)
  have "search_id_pattern (''DELETE:'' @ r) = None"
    by (rule search_no_bracket) (use nb in simp)
  then have sr: "search_id_pattern s = None"
    by (simp add: s_eq match_id_pattern_def starts_with_def)
  have nem: "s \<noteq> ''(empty)''" by (simp add: s_eq)
  from ne nn sr nem show ?thesis
    by (simp add: parse_line_def s_def [symmetric])
qed

lemma delete_line_skipped:
  "is_delete_line l \<Longrightarrow> parse_paragraph uuid4 original_nodes l st = st"
  using delete_line_parse [of l] by (simp add: parse_paragraph_def)

lemma parse_paragraphs_filter_delete:
  "parse_paragraphs uuid4 original_nodes (filter (\<lambda>l. \<not> is_delete_line l) ls) st
   = parse_paragraphs uuid4 original_nodes ls st"
  by (induction ls arbitrary: st) (simp_all add: parse_paragraphs_def delete_line_skipped)

text \<open>
  Claim C6 (deletion lines are dropped). A line of the form \<^verbatim>\<open>[DELETE:<id>]\<close> does not
  start with \<^verbatim>\<open>[NEW]\<close> and contains no \<^verbatim>\<open>[ID:...]\<close> tag, so the loop leaves the
  updates and the set of processed ids as they are; removing every such line from the
  edited text does not change what the reconciler returns.
\<close>

theorem delete_lines_dropped:
  "(is_delete_line l \<longrightarrow> parse_paragraph uuid4 original_nodes l st = st)
   \<and> parse_edited_content uuid4
        (py_join [CHR 0x0A] (filter (\<lambda>l. \<not> is_delete_line l) (split_nl edited_content)))
        original_nodes
     = parse_edited_content uuid4 edited_content original_nodes"
proof
  show "is_delete_line l \<longrightarrow> parse_paragraph uuid4 original_nodes l st = st"
    by (simp add: delete_line_skipped)
next
  define kept where "kept = filter (\<lambda>l. \<not> is_delete_line l) (split_nl edited_content)"
  have same: "parse_paragraphs uuid4 original_nodes kept initial_state
      = parse_paragraphs uuid4 original_nodes (split_nl edited_content) initial_state"
    unfolding kept_def by (rule parse_paragraphs_filter_delete)
  have "parse_paragraphs uuid4 original_nodes (split_nl (py_join [CHR 0x0A] kept)) initial_state
      = parse_paragraphs uuid4 original_nodes kept initial_state"
  proof (cases "kept = []")
    case True
    then show ?thesis
      by (simp add: parse_paragraphs_def parse_paragraph_def py_strip_def)
  next
    case False
    have "\<forall>l \<in> set kept. CHR 0x0A \<notin> set l"
      by (auto simp: kept_def dest: split_nl_no_newline)
    with False have "split_nl (py_join [CHR 0x0A] kept) = kept" by (rule split_nl_join)
    then show ?thesis by simp
  qed
  with same show "parse_edited_content uuid4 (py_join [CHR 0x0A] kept) original_nodes
     = parse_edited_content uuid4 edited_content original_nodes"
    by (simp add: parse_edited_content_def)
qed

theorem delete_lines_dropped_witness:
  "is_delete_line ''[DELETE: b2]''
   \<and> parse_paragraph (\<lambda>k. []) [\<lparr>node_id = JStr ''b2'', node_text = ''World''\<rparr>] ''[DELETE: b2]'' initial_state
     = initial_state"
proof -
  have h: "is_delete_line ''[DELETE: b2]''"
    by (simp add: is_delete_line_def py_strip_def is_space_def starts_with_def is_alnum_def)
  from delete_lines_dropped [THEN conjunct1, THEN mp, OF h] h show ?thesis by blast
qed

subsection \<open>Rendered lines\<close>

lemma strip_trailing_space:
  assumes "p \<noteq> []" "trimmed p"
  shows "py_strip (p @ '' '') = p"
proof -
  from assms have h: "\<not> is_space (hd p)" and l: "\<not> is_space (last p)"
    by (auto simp: trimmed_def)
  from assms(1) h have d: "dropWhile is_space (p @ '' '') = p @ '' ''"
    by (cases p) auto
  from assms(1) obtain y ys where r: "rev p = y # ys" by (cases "rev p") auto
  have "y = last p" using r assms(1) by (metis hd_rev list.sel(1))
  with l have "dropWhile is_space (y # ys) = y # ys" by simp
  then have "dropWhile is_space (rev p) = rev p" by (simp only: r)
  then have "dropWhile is_space (rev (p @ '' '')) = rev p"
    by (simp add: is_space_def)
  with d show ?thesis by (simp add: py_strip_def)
qed

lemma strip_leading_space: "py_strip (CHR '' '' # t) = py_strip t"
  by (simp add: py_strip_def is_space_def)

lemma strip_rendered:
  assumes "trimmed t"
  shows "py_strip (''[ID:'' @ s @ ''] '' @ t) = ''[ID:'' @ s @ CHR '']'' # (if t = [] then [] else CHR '' '' # t)"
proof (cases "t = []")
  case True
  have "trimmed (''[ID:'' @ s @ '']'')" by (simp add: trimmed_def is_space_def)
  from strip_trailing_space [OF _ this] True show ?thesis by simp
next
  case False
  with assms have "\<not> is_space (last t)" by (simp add: trimmed_def)
  with False have "trimmed (''[ID:'' @ s @ ''] '' @ t)" by (simp add: trimmed_def is_space_def)
  from trimmed_strip [OF this] False show ?thesis by simp
qed

lemma parse_line_rendered:
  assumes s: "s \<noteq> []" "list_all is_alnum s"
    and t: "trimmed t" "t \<noteq> ''(empty)''"
  shows "parse_line (py_strip (''[ID:'' @ s @ ''] '' @ t)) = (False, Some s, t)"
proof -
  define rest where "rest = (if t = [] then [] else CHR '' '' # t)"
  have st: "py_strip (''[ID:'' @ s @ ''] '' @ t) = ''[ID:'' @ s @ CHR '']'' # rest"
    using strip_rendered [OF t(1)] by (simp add: rest_def)
  have nn: "\<not> starts_with ''[NEW]'' (''[ID:'' @ s @ CHR '']'' # rest)"
    by (simp add: starts_with_def)
  have sr: "search_id_pattern (''[ID:'' @ s @ CHR '']'' # rest) = Some ([], s, rest)"
    using match_rendered [OF s, of rest] by simp
  have ps: "py_strip s = s" using s(2) by (intro trimmed_strip alnum_trimmed)
  have pr: "py_strip rest = t"
    using trimmed_strip [OF t(1)] by (auto simp: rest_def strip_leading_space)
  show ?thesis
    unfolding st parse_line_def Let_def using nn sr ps pr s(1) t(2) by simp
qed

lemma rendered_line_no_update:
  assumes rt: "round_trip_node node" and id: "node_id node = JStr s"
    and lk: "lookup_original original_nodes s = Some node'" "node_text node' = node_text node"
  shows "path_updates (parse_paragraph uuid4 original_nodes (render_line str_of node) st) = path_updates st"
proof -
  from rt id have s: "s \<noteq> []" "list_all is_alnum s"
    and t: "trimmed (node_text node)" "node_text node \<noteq> ''(empty)''"
    by (auto simp: round_trip_node_def intro: strip_trimmed)
  have line: "render_line str_of node = ''[ID:'' @ s @ ''] '' @ node_text node"
    by (simp add: render_line_def format_id_def id)
  have ne: "py_strip (''[ID:'' @ s @ ''] '' @ node_text node) \<noteq> []"
    using strip_rendered [OF t(1), of s] by simp
  show ?thesis
    unfolding parse_paragraph_def line Let_def
    using ne parse_line_rendered [OF s t] lk by simp
qed

lemma find_distinct:
  "distinct (map f xs) \<Longrightarrow> x \<in> set xs \<Longrightarrow> find (\<lambda>y. f y = f x) xs = Some x"
  by (induction xs) (auto simp: image_iff)

lemma lookup_original_distinct:
  assumes "distinct (map node_id original_nodes)" "node \<in> set original_nodes" "node_id node = JStr s"
  shows "lookup_original original_nodes s = Some node"
proof -
  from assms(1) have "distinct (map node_id (rev original_nodes))" by (simp add: rev_map [symmetric])
  from find_distinct [OF this, of node] assms(2,3) show ?thesis
    by (simp add: lookup_original_def)
qed

lemma rendered_lines_no_update:
  assumes "distinct (map node_id original_nodes)" "list_all round_trip_node original_nodes"
  shows "set nodes \<subseteq> set original_nodes \<Longrightarrow>
    path_updates (parse_paragraphs uuid4 original_nodes (map (render_line str_of) nodes) st) = path_updates st"
proof (induction nodes arbitrary: st)
  case Nil
  then show ?case by (simp add: parse_paragraphs_def)
next
  case (Cons node nodes)
  from Cons.prems have mem: "node \<in> set original_nodes" by simp
  with assms(2) have rt: "round_trip_node node" by (simp add: list_all_iff)
  then obtain s where id: "node_id node = JStr s"
    by (auto simp: round_trip_node_def split: json.splits)
  have lk: "lookup_original original_nodes s = Some node"
    by (rule lookup_original_distinct [OF assms(1) mem id])
  have step: "path_updates (parse_paragraph uuid4 original_nodes (render_line str_of node) st) = path_updates st"
    by (rule rendered_line_no_update [OF rt id lk refl])
  from Cons.prems have "set nodes \<subseteq> set original_nodes" by simp
  from Cons.IH [OF this, of "parse_paragraph uuid4 original_nodes (render_line str_of node) st"] step
  show ?case by (simp add: parse_paragraphs_def)
qed

lemma newline_not_alnum: "\<not> is_alnum (CHR 0x0A)"
  by (simp add: is_alnum_def)

lemma rendered_line_no_newline:
  assumes "round_trip_node node"
  shows "CHR 0x0A \<notin> set (render_line str_of node)"
proof -
  from assms obtain s where id: "node_id node = JStr s" and al: "list_all is_alnum s"
    and tx: "CHR 0x0A \<notin> set (node_text node)"
    by (auto simp: round_trip_node_def split: json.splits)
  from al newline_not_alnum have "CHR 0x0A \<notin> set s" by (auto simp: list_all_iff)
  with tx show ?thesis by (simp add: render_line_def format_id_def id)
qed

lemma round_trip_flat:
  assumes "distinct (map node_id nodes)" "list_all round_trip_node nodes"
  shows "parse_edited_content uuid4 (dump_flattened_nodes str_of nodes) nodes = Inr []"
proof -
  have hashable: "\<not> list_ex (\<lambda>node. is_container (node_id node)) nodes"
    using assms(2)
    by (auto simp: list_ex_iff list_all_iff round_trip_node_def is_container_def split: json.splits)
  have "path_updates (parse_paragraphs uuid4 nodes
          (split_nl (dump_flattened_nodes str_of nodes)) initial_state) = []"
  proof (cases "nodes = []")
    case True
    then show ?thesis
      by (simp add: dump_flattened_nodes_def parse_paragraphs_def parse_paragraph_def
          py_strip_def initial_state_def)
  next
    case False
    have "\<forall>l \<in> set (map (render_line str_of) nodes). CHR 0x0A \<notin> set l"
      using assms(2) rendered_line_no_newline by (auto simp: list_all_iff)
    with False have "split_nl (dump_flattened_nodes str_of nodes) = map (render_line str_of) nodes"
      unfolding dump_flattened_nodes_def by (intro split_nl_join) simp_all
    with rendered_lines_no_update [OF assms, of nodes uuid4 str_of initial_state]
    show ?thesis by (simp add: initial_state_def)
  qed
  with hashable show ?thesis by (simp add: parse_edited_content_def)
qed

text \<open>
  Claim C1 (round-trip identity) fails as stated: the reconciler strips the text that
  follows the tag, so a paragraph whose text starts with a space comes back as modified.
\<close>

theorem round_trip_counterexample:
  "parse_edited_content (\<lambda>k. [])
     (dump_flattened_nodes (\<lambda>v. [])
        (flatten_nodes_to_list (JDict [(''type'', JStr ''paragraph''), (''id'', JStr ''a1''), (''text'', JStr '' Hello'')])))
     (flatten_nodes_to_list (JDict [(''type'', JStr ''paragraph''), (''id'', JStr ''a1''), (''text'', JStr '' Hello'')]))
   = Inr [\<lparr>path = None, content = ''Hello'', update_id = ''a1''\<rparr>]"
proof -
  have fl: "flatten_nodes_to_list (JDict [(''type'', JStr ''paragraph''), (''id'', JStr ''a1''), (''text'', JStr '' Hello'')])
      = [\<lparr>node_id = JStr ''a1'', node_text = '' Hello''\<rparr>]"
    by (simp add: is_leaf_node_def get_str_def get_list_def get_node_id_def py_strip_def is_space_def)
  show ?thesis
    unfolding fl
    by (simp add: dump_flattened_nodes_def render_line_def format_id_def
        parse_edited_content_def parse_paragraphs_def parse_paragraph_def parse_line_def
        initial_state_def lookup_original_def match_id_pattern_def starts_with_def
        py_strip_def is_space_def is_alnum_def is_container_def)
qed

text \<open>
  Claim C1, amended. For every tree whose flat nodes have pairwise distinct ids, each a
  non-empty alphanumeric string, and texts without line break, without white space at
  either end and different from \<^verbatim>\<open>(empty)\<close>, reconciling the rendering of the flat list
  against the flat list returns no update.
\<close>

theorem round_trip_identity:
  assumes "distinct (map node_id (flatten_nodes_to_list T))"
    and "list_all round_trip_node (flatten_nodes_to_list T)"
  shows "parse_edited_content uuid4 (dump_flattened_nodes str_of (flatten_nodes_to_list T))
           (flatten_nodes_to_list T) = Inr []"
  using assms by (rule round_trip_flat)

theorem round_trip_identity_witness:
  "distinct (map node_id (flatten_nodes_to_list
      (JDict [(''type'', JStr ''doc''), (''id'', JStr ''d0''), (''content'', JList [
         JDict [(''type'', JStr ''paragraph''), (''id'', JStr ''a1''),
                (''content'', JList [JDict [(''type'', JStr ''text''), (''text'', JStr ''Hello'')]])],
         JDict [(''type'', JStr ''paragraph''), (''id'', JStr ''b2''),
                (''content'', JList [JDict [(''type'', JStr ''text''), (''text'', JStr ''World'')]])]])])))
   \<and> list_all round_trip_node (flatten_nodes_to_list
      (JDict [(''type'', JStr ''doc''), (''id'', JStr ''d0''), (''content'', JList [
         JDict [(''type'', JStr ''paragraph''), (''id'', JStr ''a1''),
                (''content'', JList [JDict [(''type'', JStr ''text''), (''text'', JStr ''Hello'')]])],
         JDict [(''type'', JStr ''paragraph''), (''id'', JStr ''b2''),
                (''content'', JList [JDict [(''type'', JStr ''text''), (''text'', JStr ''World'')]])]])]))
   \<and> parse_edited_content (\<lambda>k. [])
        (dump_flattened_nodes (\<lambda>v. []) (flatten_nodes_to_list
          (JDict [(''type'', JStr ''doc''), (''id'', JStr ''d0''), (''content'', JList [
         JDict [(''type'', JStr ''paragraph''), (''id'', JStr ''a1''),
                (''content'', JList [JDict [(''type'', JStr ''text''), (''text'', JStr ''Hello'')]])],
         JDict [(''type'', JStr ''paragraph''), (''id'', JStr ''b2''),
                (''content'', JList [JDict [(''type'', JStr ''text''), (''text'', JStr ''World'')]])]])])))
        (flatten_nodes_to_list
          (JDict [(''type'', JStr ''doc''), (''id'', JStr ''d0''), (''content'', JList [
         JDict [(''type'', JStr ''paragraph''), (''id'', JStr ''a1''),
                (''content'', JList [JDict [(''type'', JStr ''text''), (''text'', JStr ''Hello'')]])],
         JDict [(''type'', JStr ''paragraph''), (''id'', JStr ''b2''),
                (''content'', JList [JDict [(''type'', JStr ''text''), (''text'', JStr ''World'')]])]])]))
     = Inr []"
proof -
  let ?T = "JDict [(''type'', JStr ''doc''), (''id'', JStr ''d0''), (''content'', JList [
         JDict [(''type'', JStr ''paragraph''), (''id'', JStr ''a1''),
                (''content'', JList [JDict [(''type'', JStr ''text''), (''text'', JStr ''Hello'')]])],
         JDict [(''type'', JStr ''paragraph''), (''id'', JStr ''b2''),
                (''content'', JList [JDict [(''type'', JStr ''text''), (''text'', JStr ''World'')]])]])]"
  have fl: "flatten_nodes_to_list ?T
      = [\<lparr>node_id = JStr ''a1'', node_text = ''Hello''\<rparr>, \<lparr>node_id = JStr ''b2'', node_text = ''World''\<rparr>]"
    by (simp add: is_leaf_node_def get_str_def get_list_def get_node_id_def py_strip_def is_space_def
        text_items_def nested_content_items_def has_text_def has_content_def is_container_def
        extract_text_from_content_def)
  have d: "distinct (map node_id (flatten_nodes_to_list ?T))"
    unfolding fl by simp
  have w: "list_all round_trip_node (flatten_nodes_to_list ?T)"
    unfolding fl by (simp add: round_trip_node_def py_strip_def is_space_def is_alnum_def)
  from d w round_trip_identity [OF d w] show ?thesis by blast
qed

subsection \<open>Evaluation on concrete responses\<close>

lemmas parse_eval =
  parse_edited_content_def parse_paragraphs_def parse_paragraph_def parse_line_def
  initial_state_def lookup_original_def match_id_pattern_def starts_with_def
  py_strip_def is_space_def is_alnum_def is_container_def

text \<open>
  Claim C4 (a line with only the tag). The text after the tag is empty and is compared
  with the original text like any other text: for a paragraph with the text
  \<^verbatim>\<open>Hello\<close> the reconciler emits an update that replaces it by the empty string.
\<close>

theorem tag_only_line_blanks_paragraph:
  "parse_edited_content (\<lambda>k. []) ''[ID:a1]'' [\<lparr>node_id = JStr ''a1'', node_text = ''Hello''\<rparr>]
   = Inr [\<lparr>path = None, content = [], update_id = ''a1''\<rparr>]"
  by (simp add: parse_eval)

text \<open>
  Claim C8 (empty marker) fails in its first half: the rendering inserts the text as it
  is and never writes \<^verbatim>\<open>(empty)\<close>.
\<close>

theorem render_empty_text_counterexample:
  "dump_flattened_nodes (\<lambda>v. []) [\<lparr>node_id = JStr ''c3'', node_text = []\<rparr>] \<noteq> ''[ID:c3] (empty)''"
  by (simp add: dump_flattened_nodes_def render_line_def format_id_def)

lemma empty_marker_line: "py_strip ''[ID:c3] (empty)'' = ''[ID:c3] (empty)''
    \<and> parse_line ''[ID:c3] (empty)'' = (False, Some ''c3'', [])"
  by (simp add: parse_line_def match_id_pattern_def starts_with_def py_strip_def is_space_def is_alnum_def)

lemma empty_marker_step:
  assumes "lookup_original original_nodes ''c3'' = Some original_node" "node_text original_node = []"
  shows "path_updates (parse_paragraph uuid4 original_nodes ''[ID:c3] (empty)'' st) = path_updates st"
  using assms empty_marker_line by (simp add: parse_paragraph_def starts_with_def)

text \<open>
  Claim C8, amended. A flat node with the id \<^verbatim>\<open>c3\<close> and the empty text is rendered as
  the tag followed by one space. The response line \<^verbatim>\<open>[ID:c3] (empty)\<close> adds no update,
  wherever it stands in the response, when the node that the original list holds for
  \<^verbatim>\<open>c3\<close> (the last one with that id) has the empty text; as the whole response it
  makes the reconciler return the empty list, the ids of the original list being
  hashable.
\<close>

theorem empty_marker_round_trip:
  assumes "lookup_original original_nodes ''c3'' = Some original_node"
    and "node_text original_node = []"
  shows "dump_flattened_nodes str_of [\<lparr>node_id = JStr ''c3'', node_text = []\<rparr>] = ''[ID:c3] ''
    \<and> path_updates (parse_paragraph uuid4 original_nodes ''[ID:c3] (empty)'' st) = path_updates st
    \<and> (\<not> list_ex (\<lambda>node. is_container (node_id node)) original_nodes
         \<longrightarrow> parse_edited_content uuid4 ''[ID:c3] (empty)'' original_nodes = Inr [])"
proof (intro conjI impI)
  show "dump_flattened_nodes str_of [\<lparr>node_id = JStr ''c3'', node_text = []\<rparr>] = ''[ID:c3] ''"
    by (simp add: dump_flattened_nodes_def render_line_def format_id_def)
next
  show "path_updates (parse_paragraph uuid4 original_nodes ''[ID:c3] (empty)'' st) = path_updates st"
    using assms by (rule empty_marker_step)
next
  assume "\<not> list_ex (\<lambda>node. is_container (node_id node)) original_nodes"
  moreover have "path_updates (parse_paragraph uuid4 original_nodes ''[ID:c3] (empty)'' initial_state) = []"
    using empty_marker_step [OF assms, of uuid4 initial_state] by (simp add: initial_state_def)
  ultimately show "parse_edited_content uuid4 ''[ID:c3] (empty)'' original_nodes = Inr []"
    by (simp add: parse_edited_content_def parse_paragraphs_def)
qed

theorem empty_marker_round_trip_witness:
  "lookup_original [\<lparr>node_id = JStr ''a1'', node_text = ''Hello''\<rparr>, \<lparr>node_id = JStr ''c3'', node_text = []\<rparr>] ''c3''
     = Some \<lparr>node_id = JStr ''c3'', node_text = []\<rparr>
   \<and> node_text \<lparr>node_id = JStr ''c3'', node_text = []\<rparr> = []
   \<and> \<not> list_ex (\<lambda>node. is_container (node_id node))
        [\<lparr>node_id = JStr ''a1'', node_text = ''Hello''\<rparr>, \<lparr>node_id = JStr ''c3'', node_text = []\<rparr>]
   \<and> parse_edited_content (\<lambda>k. []) ''[ID:c3] (empty)''
        [\<lparr>node_id = JStr ''a1'', node_text = ''Hello''\<rparr>, \<lparr>node_id = JStr ''c3'', node_text = []\<rparr>] = Inr []"
proof -
  let ?orig = "[\<lparr>node_id = JStr ''a1'', node_text = ''Hello''\<rparr>, \<lparr>node_id = JStr ''c3'', node_text = []\<rparr>]"
  have lk: "lookup_original ?orig ''c3'' = Some \<lparr>node_id = JStr ''c3'', node_text = []\<rparr>"
    by (simp add: lookup_original_def)
  have tx: "node_text \<lparr>node_id = JStr ''c3'', node_text = []\<rparr> = []" by simp
  have hs: "\<not> list_ex (\<lambda>node. is_container (node_id node)) ?orig"
    by (simp add: is_container_def)
  from empty_marker_round_trip [OF lk tx, of "\<lambda>v. []" "\<lambda>k. []" initial_state]
  have "parse_edited_content (\<lambda>k. []) ''[ID:c3] (empty)'' ?orig = Inr []"
    using hs by blast
  with lk tx hs show ?thesis by blast
qed

subsection \<open>Ids of the updates\<close>

lemma uuid_calls_step:
  "uuid_calls (parse_paragraph uuid4 original_nodes l st)
   = (if is_untagged_new l then Suc (uuid_calls st) else uuid_calls st)"
  by (simp add: parse_paragraph_def is_untagged_new_def line_tag_def Let_def
      split: prod.splits option.splits)

lemma uuid_calls_fold:
  "uuid_calls (parse_paragraphs uuid4 original_nodes ls st)
   = uuid_calls st + length (filter is_untagged_new ls)"
  by (induction ls arbitrary: st) (simp_all add: parse_paragraphs_def uuid_calls_step)

lemma parse_paragraph_cases:
  obtains (skip) "parse_paragraph uuid4 original_nodes l st = st"
  | (synth) c where "is_untagged_new l"
      "parse_paragraph uuid4 original_nodes l st
       = st\<lparr>path_updates := path_updates st @
              [\<lparr>path = Some ''new'', content = c, update_id = take 4 (uuid4 (uuid_calls st))\<rparr>],
            uuid_calls := Suc (uuid_calls st)\<rparr>"
  | (tagged) t u where "line_tag l = Some t" "t \<notin> processed_ids st" "update_id u = t"
      "parse_paragraph uuid4 original_nodes l st
       = st\<lparr>path_updates := path_updates st @ [u], processed_ids := insert t (processed_ids st)\<rparr>"
  | (mark) t where "line_tag l = Some t"
      "parse_paragraph uuid4 original_nodes l st = st\<lparr>processed_ids := insert t (processed_ids st)\<rparr>"
proof (cases "py_strip l = []")
  case True
  then have "parse_paragraph uuid4 original_nodes l st = st" by (simp add: parse_paragraph_def)
  then show ?thesis by (rule skip)
next
  case False
  obtain is_new tag final where pl: "parse_line (py_strip l) = (is_new, tag, final)"
    by (cases "parse_line (py_strip l)") auto
  then have lt: "line_tag l = tag" by (simp add: line_tag_def)
  show ?thesis
  proof (cases tag)
    case None
    show ?thesis
    proof (cases is_new)
      case True
      have "is_untagged_new l" using False pl None True lt by (simp add: is_untagged_new_def)
      moreover have "parse_paragraph uuid4 original_nodes l st
       = st\<lparr>path_updates := path_updates st @
              [\<lparr>path = Some ''new'', content = final, update_id = take 4 (uuid4 (uuid_calls st))\<rparr>],
            uuid_calls := Suc (uuid_calls st)\<rparr>"
        using False pl None True by (simp add: parse_paragraph_def)
      ultimately show ?thesis by (rule synth)
    next
      case no: False
      have "parse_paragraph uuid4 original_nodes l st = st"
        using False pl None no by (simp add: parse_paragraph_def)
      then show ?thesis by (rule skip)
    qed
  next
    case (Some t)
    with lt have ltt: "line_tag l = Some t" by simp
    show ?thesis
    proof (cases "t \<in> processed_ids st")
      case True
      have "parse_paragraph uuid4 original_nodes l st = st"
        using False pl Some True by (simp add: parse_paragraph_def)
      then show ?thesis by (rule skip)
    next
      case np: False
      show ?thesis
      proof (cases is_new)
        case True
        have "parse_paragraph uuid4 original_nodes l st
          = st\<lparr>path_updates := path_updates st @ [\<lparr>path = Some ''new'', content = final, update_id = t\<rparr>],
               processed_ids := insert t (processed_ids st)\<rparr>"
          using False pl Some np True by (simp add: parse_paragraph_def)
        from tagged [OF ltt np _ this] show ?thesis by simp
      next
        case nn: False
        show ?thesis
        proof (cases "starts_with ''[ID:'' final \<and> length final < 15")
          case True
          have "parse_paragraph uuid4 original_nodes l st = st"
            using False pl Some np nn True by (simp add: parse_paragraph_def)
          then show ?thesis by (rule skip)
        next
          case ng: False
          show ?thesis
          proof (cases "lookup_original original_nodes t")
            case None
            have "parse_paragraph uuid4 original_nodes l st = st\<lparr>processed_ids := insert t (processed_ids st)\<rparr>"
              using False pl Some np nn ng None by (auto simp add: parse_paragraph_def)
            from mark [OF ltt this] show ?thesis .
          next
            case (Some original_node)
            show ?thesis
            proof (cases "final = node_text original_node")
              case True
              have "parse_paragraph uuid4 original_nodes l st = st\<lparr>processed_ids := insert t (processed_ids st)\<rparr>"
                using False pl \<open>tag = Some t\<close> np nn ng Some True by (auto simp add: parse_paragraph_def)
              from mark [OF ltt this] show ?thesis .
            next
              case ne: False
              have "parse_paragraph uuid4 original_nodes l st
                = st\<lparr>path_updates := path_updates st @ [\<lparr>path = None, content = final, update_id = t\<rparr>],
                     processed_ids := insert t (processed_ids st)\<rparr>"
                using False pl \<open>tag = Some t\<close> np nn ng Some ne by (auto simp add: parse_paragraph_def)
              from tagged [OF ltt np _ this] show ?thesis by simp
            qed
          qed
        qed
      qed
    qed
  qed
qed

lemma ids_invariant_step:
  assumes inv: "ids_invariant uuid4 T st"
    and tag: "\<And>t. line_tag l = Some t \<Longrightarrow> t \<in> T"
    and inj: "inj_on (\<lambda>k. take 4 (uuid4 k)) {0..<N}"
    and disj: "(\<lambda>k. take 4 (uuid4 k)) ` {0..<N} \<inter> T = {}"
    and bound: "uuid_calls (parse_paragraph uuid4 original_nodes l st) \<le> N"
  shows "ids_invariant uuid4 T (parse_paragraph uuid4 original_nodes l st)"
proof -
  let ?f = "\<lambda>k. take 4 (uuid4 k)"
  let ?ids = "set (map update_id (path_updates st))"
  from inv have d: "distinct (map update_id (path_updates st))"
    and sub: "?ids \<subseteq> processed_ids st \<union> ?f ` {0..<uuid_calls st}"
    and pt: "processed_ids st \<subseteq> T"
    by (simp_all add: ids_invariant_def)
  show ?thesis
  proof (cases rule: parse_paragraph_cases [of uuid4 original_nodes l st])
    case skip
    with inv show ?thesis by simp
  next
    case (synth c)
    let ?k = "uuid_calls st"
    from bound synth(2) have kN: "?k < N" by simp
    from kN have "?f ?k \<in> ?f ` {0..<N}" by simp
    with disj have "?f ?k \<notin> T" by blast
    with pt have n1: "?f ?k \<notin> processed_ids st" by blast
    have n2: "?f ?k \<notin> ?f ` {0..<?k}"
    proof
      assume "?f ?k \<in> ?f ` {0..<?k}"
      then obtain j where j: "j < ?k" "?f j = ?f ?k" by auto
      with kN have "j \<in> {0..<N}" "?k \<in> {0..<N}" by auto
      with inj j(2) have "j = ?k" by (auto dest: inj_onD)
      with j(1) show False by simp
    qed
    from n1 n2 sub have fresh: "?f ?k \<notin> ?ids" by blast
    have s2: "?f ` {0..<Suc ?k} = insert (?f ?k) (?f ` {0..<?k})"
      by (auto simp: less_Suc_eq)
    show ?thesis
      unfolding synth(2) ids_invariant_def
      using d fresh sub pt s2 by auto
  next
    case (tagged t u)
    from tag [OF tagged(1)] have tT: "t \<in> T" .
    from bound tagged(4) have kN: "uuid_calls st \<le> N" by simp
    have "t \<notin> ?f ` {0..<N}" using disj tT by blast
    with kN have "t \<notin> ?f ` {0..<uuid_calls st}" by auto
    with tagged(2) sub have fresh: "t \<notin> ?ids" by blast
    show ?thesis
      unfolding tagged(4) ids_invariant_def
      using d fresh sub pt tT tagged(3) by auto
  next
    case (mark t)
    from tag [OF mark(1)] have tT: "t \<in> T" .
    show ?thesis
      unfolding mark(2) ids_invariant_def
      using d sub pt tT by auto
  qed
qed

lemma uuid_calls_mono:
  "uuid_calls st \<le> uuid_calls (parse_paragraphs uuid4 original_nodes ls st)"
  by (simp add: uuid_calls_fold)

lemma ids_invariant_fold:
  assumes inj: "inj_on (\<lambda>k. take 4 (uuid4 k)) {0..<N}"
    and disj: "(\<lambda>k. take 4 (uuid4 k)) ` {0..<N} \<inter> T = {}"
  shows "ids_invariant uuid4 T st
    \<Longrightarrow> (\<And>l t. l \<in> set ls \<Longrightarrow> line_tag l = Some t \<Longrightarrow> t \<in> T)
    \<Longrightarrow> uuid_calls (parse_paragraphs uuid4 original_nodes ls st) \<le> N
    \<Longrightarrow> ids_invariant uuid4 T (parse_paragraphs uuid4 original_nodes ls st)"
proof (induction ls arbitrary: st)
  case Nil
  then show ?case by (simp add: parse_paragraphs_def)
next
  case (Cons l ls)
  let ?st = "parse_paragraph uuid4 original_nodes l st"
  have unfold: "parse_paragraphs uuid4 original_nodes (l # ls) st
      = parse_paragraphs uuid4 original_nodes ls ?st"
    by (simp add: parse_paragraphs_def)
  from Cons.prems(3) have b: "uuid_calls (parse_paragraphs uuid4 original_nodes ls ?st) \<le> N"
    by (simp add: unfold)
  with uuid_calls_mono [of ?st uuid4 original_nodes ls] have b1: "uuid_calls ?st \<le> N" by simp
  have "ids_invariant uuid4 T ?st"
    by (rule ids_invariant_step [OF Cons.prems(1) _ inj disj b1]) (auto intro: Cons.prems(2))
  then have "ids_invariant uuid4 T (parse_paragraphs uuid4 original_nodes ls ?st)"
  proof (rule Cons.IH)
    show "\<And>l' t. l' \<in> set ls \<Longrightarrow> line_tag l' = Some t \<Longrightarrow> t \<in> T"
      by (rule Cons.prems(2)) simp_all
    show "uuid_calls (parse_paragraphs uuid4 original_nodes ls ?st) \<le> N" by (rule b)
  qed
  then show ?case by (simp add: unfold)
qed

lemma tagged_ids_iff: "t \<in> set (tagged_ids edited_content) \<longleftrightarrow> (\<exists>l \<in> set (split_nl edited_content). line_tag l = Some t)"
  by (force simp: tagged_ids_def List.map_filter_def)

text \<open>
  Claim C5 (duplicate-free output) fails in the case it names: an id synthesized for a
  \<^verbatim>\<open>[NEW]\<close> line without a tag is neither looked up in the set of processed ids nor
  added to it. Two calls of \<^verbatim>\<open>uuid4\<close> whose results start with the same four characters
  give two updates with the same id.
\<close>

theorem duplicate_ids_counterexample:
  "parse_edited_content (\<lambda>k. if k = 0 then ''abcd1234-5678-4abc-8def-0123456789ab''
                         else ''abcd9876-5432-4fed-8cba-ba9876543210'') (''[NEW] x'' @ [CHR 0x0A] @ ''[NEW] y'') []
   = Inr [\<lparr>path = Some ''new'', content = ''x'', update_id = ''abcd''\<rparr>,
          \<lparr>path = Some ''new'', content = ''y'', update_id = ''abcd''\<rparr>]"
  by (simp add: parse_eval)

text \<open>
  Claim C5, amended. When the ids synthesized for the untagged \<^verbatim>\<open>[NEW]\<close> lines are
  pairwise distinct and differ from every id tagged in the response, no id appears in
  more than one update; the set of processed ids keeps the tagged ids apart.
\<close>

theorem updates_distinct_ids:
  assumes run: "parse_edited_content uuid4 edited_content original_nodes = Inr updates"
    and fresh: "distinct (synthesized_ids uuid4 edited_content)"
    and apart: "set (synthesized_ids uuid4 edited_content) \<inter> set (tagged_ids edited_content) = {}"
  shows "distinct (map update_id updates)"
proof -
  let ?ls = "split_nl edited_content"
  let ?N = "length (filter is_untagged_new ?ls)"
  let ?T = "set (tagged_ids edited_content)"
  let ?final = "parse_paragraphs uuid4 original_nodes ?ls initial_state"
  from run have upd: "updates = path_updates ?final"
    by (auto simp: parse_edited_content_def split: if_splits)
  from fresh have inj: "inj_on (\<lambda>k. take 4 (uuid4 k)) {0..<?N}"
    by (simp add: synthesized_ids_def distinct_map)
  from apart have disj: "(\<lambda>k. take 4 (uuid4 k)) ` {0..<?N} \<inter> ?T = {}"
    by (simp add: synthesized_ids_def)
  have init: "ids_invariant uuid4 ?T initial_state"
    by (simp add: ids_invariant_def initial_state_def)
  have bound: "uuid_calls ?final \<le> ?N"
    by (simp add: uuid_calls_fold initial_state_def)
  have "ids_invariant uuid4 ?T ?final"
    by (rule ids_invariant_fold [OF inj disj init _ bound]) (auto simp: tagged_ids_iff)
  then show ?thesis by (simp add: ids_invariant_def upd)
qed

theorem updates_distinct_ids_witness:
  "parse_edited_content (\<lambda>k. if k = 0 then ''abcd1234'' else ''ef015678'')
      (''[ID:a1] Hi'' @ [CHR 0x0A] @ ''[NEW] x'' @ [CHR 0x0A] @ ''[NEW] y'')
      [\<lparr>node_id = JStr ''a1'', node_text = ''Hello''\<rparr>]
    = Inr [\<lparr>path = None, content = ''Hi'', update_id = ''a1''\<rparr>,
           \<lparr>path = Some ''new'', content = ''x'', update_id = ''abcd''\<rparr>,
           \<lparr>path = Some ''new'', content = ''y'', update_id = ''ef01''\<rparr>]
   \<and> distinct (synthesized_ids (\<lambda>k. if k = 0 then ''abcd1234'' else ''ef015678'')
        (''[ID:a1] Hi'' @ [CHR 0x0A] @ ''[NEW] x'' @ [CHR 0x0A] @ ''[NEW] y''))
   \<and> set (synthesized_ids (\<lambda>k. if k = 0 then ''abcd1234'' else ''ef015678'')
        (''[ID:a1] Hi'' @ [CHR 0x0A] @ ''[NEW] x'' @ [CHR 0x0A] @ ''[NEW] y''))
      \<inter> set (tagged_ids (''[ID:a1] Hi'' @ [CHR 0x0A] @ ''[NEW] x'' @ [CHR 0x0A] @ ''[NEW] y'')) = {}
   \<and> distinct (map update_id
        [\<lparr>path = None, content = ''Hi'', update_id = ''a1''\<rparr>,
         \<lparr>path = Some ''new'', content = ''x'', update_id = ''abcd''\<rparr>,
         \<lparr>path = Some ''new'', content = ''y'', update_id = ''ef01''\<rparr>])"
proof -
  let ?u = "\<lambda>k::nat. if k = 0 then ''abcd1234'' else ''ef015678''"
  let ?e = "''[ID:a1] Hi'' @ [CHR 0x0A] @ ''[NEW] x'' @ [CHR 0x0A] @ ''[NEW] y''"
  have run: "parse_edited_content ?u ?e [\<lparr>node_id = JStr ''a1'', node_text = ''Hello''\<rparr>]
    = Inr [\<lparr>path = None, content = ''Hi'', update_id = ''a1''\<rparr>,
           \<lparr>path = Some ''new'', content = ''x'', update_id = ''abcd''\<rparr>,
           \<lparr>path = Some ''new'', content = ''y'', update_id = ''ef01''\<rparr>]"
    by (simp add: parse_eval)
  have lines: "split_nl ?e = [''[ID:a1] Hi'', ''[NEW] x'', ''[NEW] y'']" by simp
  have t1: "line_tag ''[ID:a1] Hi'' = Some ''a1''"
    by (simp add: line_tag_def parse_eval)
  have t2: "line_tag ''[NEW] x'' = None" "line_tag ''[NEW] y'' = None"
    by (simp_all add: line_tag_def parse_eval)
  have n: "filter is_untagged_new [''[ID:a1] Hi'', ''[NEW] x'', ''[NEW] y''] = [''[NEW] x'', ''[NEW] y'']"
    by (simp add: is_untagged_new_def t1 t2 parse_eval)
  have syn: "synthesized_ids ?u ?e = [''abcd'', ''ef01'']"
    unfolding synthesized_ids_def lines n by (simp add: upt_rec)
  have tg: "tagged_ids ?e = [''a1'']"
    unfolding tagged_ids_def lines by (simp add: t1 t2)
  have fresh: "distinct (synthesized_ids ?u ?e)" unfolding syn by simp
  have apart: "set (synthesized_ids ?u ?e) \<inter> set (tagged_ids ?e) = {}" unfolding syn tg by simp
  from updates_distinct_ids [OF run fresh apart] run fresh apart show ?thesis by blast
qed

section \<open>The orchestrator and the ids\<close>

lemma emitted_from_item:
  assumes "kv \<in> set kvs" "emitted_from (snd kv) node"
  shows "emitted_from (JDict kvs) node"
proof -
  from assms(1) obtain i where i: "i < length kvs" "kvs ! i = kv" by (auto simp: in_set_conv_nth)
  from assms(2) obtain p d where "node_at (snd kv) p = Some (JDict d)" "is_leaf_node d"
    "get_node_id d \<noteq> JNull" "node = \<lparr>node_id = get_node_id d, node_text = leaf_text d\<rparr>"
    unfolding emitted_from_def by blast
  with i have "node_at (JDict kvs) (i # p) = Some (JDict d) \<and> is_leaf_node d
      \<and> get_node_id d \<noteq> JNull \<and> node = \<lparr>node_id = get_node_id d, node_text = leaf_text d\<rparr>"
    by simp
  then show ?thesis unfolding emitted_from_def by blast
qed

lemma emitted_from_member:
  assumes "x \<in> set xs" "emitted_from x node"
  shows "emitted_from (JList xs) node"
proof -
  from assms(1) obtain i where i: "i < length xs" "xs ! i = x" by (auto simp: in_set_conv_nth)
  from assms(2) obtain p d where "node_at x p = Some (JDict d)" "is_leaf_node d"
    "get_node_id d \<noteq> JNull" "node = \<lparr>node_id = get_node_id d, node_text = leaf_text d\<rparr>"
    unfolding emitted_from_def by blast
  with i have "node_at (JList xs) (i # p) = Some (JDict d) \<and> is_leaf_node d
      \<and> get_node_id d \<noteq> JNull \<and> node = \<lparr>node_id = get_node_id d, node_text = leaf_text d\<rparr>"
    by simp
  then show ?thesis unfolding emitted_from_def by blast
qed

lemma get_list_item: "get_list kvs k = Some xs \<Longrightarrow> (k, JList xs) \<in> set kvs"
  by (auto simp: get_list_def split: option.splits json.splits dest: map_of_SomeD)

lemma emitted_from_get_list:
  assumes "get_list kvs k = Some xs" "x \<in> set xs" "emitted_from x node"
  shows "emitted_from (JDict kvs) node"
  using emitted_from_item [OF get_list_item [OF assms(1)]] emitted_from_member [OF assms(2,3)]
  by simp

lemma flatten_emitted_from:
  "node \<in> set (flatten_nodes_to_list t) \<Longrightarrow> emitted_from t node"
proof (induction t arbitrary: node rule: flatten_nodes_to_list.induct)
  case (1 kvs)
  show ?case
  proof (cases "is_leaf_node kvs \<and> get_node_id kvs \<noteq> JNull")
    case True
    with "1.prems" have "node = \<lparr>node_id = get_node_id kvs, node_text = leaf_text kvs\<rparr>"
      by (auto simp: leaf_text_def Let_def split: option.splits if_splits)
    with True have "node_at (JDict kvs) [] = Some (JDict kvs) \<and> is_leaf_node kvs
        \<and> get_node_id kvs \<noteq> JNull \<and> node = \<lparr>node_id = get_node_id kvs, node_text = leaf_text kvs\<rparr>"
      by simp
    then show ?thesis unfolding emitted_from_def by blast
  next
    case False
    define A where "A = (case get_list kvs ''children'' of
           Some children \<Rightarrow> concat (map flatten_nodes_to_list children)
         | None \<Rightarrow> [])"
    define B where "B = (case get_list kvs ''content'' of
             Some cts \<Rightarrow> concat (map flatten_nodes_to_list cts)
           | None \<Rightarrow> [])"
    define C where "C = concat (map (\<lambda>kv.
            if fst kv \<notin> {''id'', ''text'', ''children'', ''content'', ''attrs''} \<and> is_container (snd kv)
            then flatten_nodes_to_list (snd kv) else []) kvs)"
    have eq: "flatten_nodes_to_list (JDict kvs) = A @ B @ C"
      unfolding A_def B_def C_def
      by (simp only: flatten_nodes_to_list.simps False if_False)
    with "1.prems" consider "node \<in> set A" | "node \<in> set B" | "node \<in> set C" by auto
    then show ?thesis
    proof cases
      case 1
      then obtain cs x where g: "get_list kvs ''children'' = Some cs"
        and x: "x \<in> set cs" "node \<in> set (flatten_nodes_to_list x)"
        unfolding A_def by (cases "get_list kvs ''children''") auto
      from "1.IH"(1) [OF False g x] have "emitted_from x node" .
      from emitted_from_get_list [OF g x(1) this] show ?thesis .
    next
      case 2
      then obtain cs x where g: "get_list kvs ''content'' = Some cs"
        and x: "x \<in> set cs" "node \<in> set (flatten_nodes_to_list x)"
        unfolding B_def by (cases "get_list kvs ''content''") auto
      from "1.IH"(2) [OF False g x] have "emitted_from x node" .
      from emitted_from_get_list [OF g x(1) this] show ?thesis .
    next
      case 3
      then obtain kv where kv: "kv \<in> set kvs"
        "fst kv \<notin> {''id'', ''text'', ''children'', ''content'', ''attrs''} \<and> is_container (snd kv)"
        "node \<in> set (flatten_nodes_to_list (snd kv))"
        unfolding C_def by (auto split: if_splits)
      from "1.IH"(3) [OF False kv] have "emitted_from (snd kv) node" .
      from emitted_from_item [OF kv(1) this] show ?thesis .
    qed
  qed
next
  case (2 xs)
  then obtain x where x: "x \<in> set xs" "node \<in> set (flatten_nodes_to_list x)" by auto
  from "2.IH" [OF x] have "emitted_from x node" .
  from emitted_from_member [OF x(1) this] show ?case .
qed simp_all

text \<open>
  Claim C2 (node identifier as first step) fails: \<^verbatim>\<open>process_jsonnode\<close> starts with the
  flattener (the source notes that the front end adds the ids). For a tree without ids
  the dump in the result is empty, while the same tree after \<^verbatim>\<open>add_ids_to_nodes\<close>
  flattens to one node.
\<close>

theorem process_assigns_no_ids_counterexample:
  "process_jsonnode (\<lambda>v. []) (\<lambda>k. ''abcd1234-5678-4abc-8def-0123456789ab'')
     (\<lambda>dumpstr message selected history. Inr ''[NEW] C'')
     (JDict [(''type'', JStr ''doc''), (''content'', JList [
        JDict [(''type'', JStr ''paragraph''),
               (''content'', JList [JDict [(''type'', JStr ''text''), (''text'', JStr ''A'')]])]])])
     ''add C'' [] ()
   = [(''original'', RStr []), (''edited'', RStr ''[NEW] C''), (''message'', RStr ''add C''),
      (''path_updates'', RUpdates [\<lparr>path = Some ''new'', content = ''C'', update_id = ''abcd''\<rparr>])]
   \<and> add_ids_to_nodes
     (JDict [(''type'', JStr ''doc''), (''content'', JList [
        JDict [(''type'', JStr ''paragraph''),
               (''content'', JList [JDict [(''type'', JStr ''text''), (''text'', JStr ''A'')]])]])])
     [10, 161, 0] {}
   = Some (JDict [(''type'', JStr ''doc''), (''content'', JList [
        JDict [(''type'', JStr ''paragraph''),
               (''content'', JList [JDict [(''type'', JStr ''text''), (''text'', JStr ''A''),
                                           (''id'', JStr ''0000'')]]),
               (''id'', JStr ''00a1'')]]),
        (''id'', JStr ''000a'')], [], {''000a'', ''00a1'', ''0000''})
   \<and> flatten_nodes_to_list
     (JDict [(''type'', JStr ''doc''), (''content'', JList [
        JDict [(''type'', JStr ''paragraph''),
               (''content'', JList [JDict [(''type'', JStr ''text''), (''text'', JStr ''A''),
                                           (''id'', JStr ''0000'')]]),
               (''id'', JStr ''00a1'')]]),
        (''id'', JStr ''000a'')])
   = [\<lparr>node_id = JStr ''00a1'', node_text = ''A''\<rparr>]"
proof (intro conjI)
  have fl: "flatten_nodes_to_list
     (JDict [(''type'', JStr ''doc''), (''content'', JList [
        JDict [(''type'', JStr ''paragraph''),
               (''content'', JList [JDict [(''type'', JStr ''text''), (''text'', JStr ''A'')]])]])])
     = []"
    by (simp add: is_leaf_node_def get_str_def get_list_def get_node_id_def get_dict_def
        py_strip_def is_space_def text_items_def nested_content_items_def has_text_def
        has_content_def is_container_def)
  show "process_jsonnode (\<lambda>v. []) (\<lambda>k. ''abcd1234-5678-4abc-8def-0123456789ab'')
     (\<lambda>dumpstr message selected history. Inr ''[NEW] C'')
     (JDict [(''type'', JStr ''doc''), (''content'', JList [
        JDict [(''type'', JStr ''paragraph''),
               (''content'', JList [JDict [(''type'', JStr ''text''), (''text'', JStr ''A'')]])]])])
     ''add C'' [] ()
   = [(''original'', RStr []), (''edited'', RStr ''[NEW] C''), (''message'', RStr ''add C''),
      (''path_updates'', RUpdates [\<lparr>path = Some ''new'', content = ''C'', update_id = ''abcd''\<rparr>])]"
    unfolding process_jsonnode_def fl
    by (simp add: dump_flattened_nodes_def parse_eval)
next
  show "add_ids_to_nodes
     (JDict [(''type'', JStr ''doc''), (''content'', JList [
        JDict [(''type'', JStr ''paragraph''),
               (''content'', JList [JDict [(''type'', JStr ''text''), (''text'', JStr ''A'')]])]])])
     [10, 161, 0] {}
   = Some (JDict [(''type'', JStr ''doc''), (''content'', JList [
        JDict [(''type'', JStr ''paragraph''),
               (''content'', JList [JDict [(''type'', JStr ''text''), (''text'', JStr ''A''),
                                           (''id'', JStr ''0000'')]]),
               (''id'', JStr ''00a1'')]]),
        (''id'', JStr ''000a'')], [], {''000a'', ''00a1'', ''0000''})"
    by (simp add: needs_id_def has_key_def dict_get_def hex4_10 hex4_161 hex4_0 insert_commute)
next
  show "flatten_nodes_to_list
     (JDict [(''type'', JStr ''doc''), (''content'', JList [
        JDict [(''type'', JStr ''paragraph''),
               (''content'', JList [JDict [(''type'', JStr ''text''), (''text'', JStr ''A''),
                                           (''id'', JStr ''0000'')]]),
               (''id'', JStr ''00a1'')]]),
        (''id'', JStr ''000a'')])
   = [\<lparr>node_id = JStr ''00a1'', node_text = ''A''\<rparr>]"
    by (simp add: is_leaf_node_def get_str_def get_list_def get_node_id_def get_dict_def
        py_strip_def is_space_def text_items_def nested_content_items_def has_text_def
        has_content_def is_container_def extract_text_from_content_def)
qed

text \<open>
  Claim C2, amended. The orchestrator does not assign ids: its first step is the
  flattener, on the tree as it was given. When the generation service returns a
  non-empty text and the reconciler raises nothing, the result holds the rendering of
  the flat list of the given tree, the edited text, the message, and the updates
  reconciled against that same flat list. Every flat node comes from a leaf dict of the
  given tree that has an id of its own (at the node or under \<^verbatim>\<open>attrs\<close>) and carries that
  id and that node's text; a node without an id is never the source of a flat node.
\<close>

theorem process_uses_given_ids:
  assumes gen: "generate_text
        (dump_flattened_nodes str_of (flatten_nodes_to_list jsonnode)) message
        (dump_flattened_nodes str_of
           (filter (\<lambda>node. node_id node \<in> JStr ` set selected_nodes_ids) (flatten_nodes_to_list jsonnode)))
        chat_history = Inr edited_content"
    and nonempty: "edited_content \<noteq> []"
    and rec: "parse_edited_content uuid4 edited_content (flatten_nodes_to_list jsonnode) = Inr updates"
  shows "process_jsonnode str_of uuid4 generate_text jsonnode message selected_nodes_ids chat_history
      = [(''original'', RStr (dump_flattened_nodes str_of (flatten_nodes_to_list jsonnode))),
         (''edited'', RStr edited_content), (''message'', RStr message),
         (''path_updates'', RUpdates updates)]
    \<and> (\<forall>node \<in> set (flatten_nodes_to_list jsonnode).
         \<exists>p kvs. node_at jsonnode p = Some (JDict kvs) \<and> is_leaf_node kvs
           \<and> get_node_id kvs \<noteq> JNull
           \<and> node = \<lparr>node_id = get_node_id kvs, node_text = leaf_text kvs\<rparr>)"
proof
  show "process_jsonnode str_of uuid4 generate_text jsonnode message selected_nodes_ids chat_history
      = [(''original'', RStr (dump_flattened_nodes str_of (flatten_nodes_to_list jsonnode))),
         (''edited'', RStr edited_content), (''message'', RStr message),
         (''path_updates'', RUpdates updates)]"
    using gen nonempty rec by (simp add: process_jsonnode_def Let_def)
next
  show "\<forall>node \<in> set (flatten_nodes_to_list jsonnode).
         \<exists>p kvs. node_at jsonnode p = Some (JDict kvs) \<and> is_leaf_node kvs
           \<and> get_node_id kvs \<noteq> JNull
           \<and> node = \<lparr>node_id = get_node_id kvs, node_text = leaf_text kvs\<rparr>"
    using flatten_emitted_from [unfolded emitted_from_def] by blast
qed

theorem process_uses_given_ids_witness:
  "parse_edited_content (\<lambda>k. []) ''[ID:a1] Hi''
      (flatten_nodes_to_list
        (JDict [(''type'', JStr ''doc''), (''id'', JStr ''d0''), (''content'', JList [
           JDict [(''type'', JStr ''paragraph''), (''id'', JStr ''a1''),
                  (''content'', JList [JDict [(''type'', JStr ''text''), (''text'', JStr ''Hello'')]])],
           JDict [(''type'', JStr ''paragraph''),
                  (''content'', JList [JDict [(''type'', JStr ''text''), (''text'', JStr ''World'')]])]])]))
     = Inr [\<lparr>path = None, content = ''Hi'', update_id = ''a1''\<rparr>]
   \<and> process_jsonnode (\<lambda>v. []) (\<lambda>k. []) (\<lambda>dumpstr message selected history. Inr ''[ID:a1] Hi'')
        (JDict [(''type'', JStr ''doc''), (''id'', JStr ''d0''), (''content'', JList [
           JDict [(''type'', JStr ''paragraph''), (''id'', JStr ''a1''),
                  (''content'', JList [JDict [(''type'', JStr ''text''), (''text'', JStr ''Hello'')]])],
           JDict [(''type'', JStr ''paragraph''),
                  (''content'', JList [JDict [(''type'', JStr ''text''), (''text'', JStr ''World'')]])]])])
        ''greet'' [] ()
     = [(''original'', RStr ''[ID:a1] Hello''), (''edited'', RStr ''[ID:a1] Hi''),
        (''message'', RStr ''greet''),
        (''path_updates'', RUpdates [\<lparr>path = None, content = ''Hi'', update_id = ''a1''\<rparr>])]"
proof -
  let ?T = "JDict [(''type'', JStr ''doc''), (''id'', JStr ''d0''), (''content'', JList [
           JDict [(''type'', JStr ''paragraph''), (''id'', JStr ''a1''),
                  (''content'', JList [JDict [(''type'', JStr ''text''), (''text'', JStr ''Hello'')]])],
           JDict [(''type'', JStr ''paragraph''),
                  (''content'', JList [JDict [(''type'', JStr ''text''), (''text'', JStr ''World'')]])]])]"
  let ?gen = "\<lambda>(dumpstr::string) (message::string) (selected::string) (history::unit). (Inr ''[ID:a1] Hi'' :: pyexc + string)"
  have fl: "flatten_nodes_to_list ?T = [\<lparr>node_id = JStr ''a1'', node_text = ''Hello''\<rparr>]"
    by (simp add: is_leaf_node_def get_str_def get_list_def get_node_id_def get_dict_def py_strip_def
        is_space_def text_items_def nested_content_items_def has_text_def has_content_def
        is_container_def extract_text_from_content_def)
  have gen: "?gen (dump_flattened_nodes (\<lambda>v. []) (flatten_nodes_to_list ?T)) ''greet''
        (dump_flattened_nodes (\<lambda>v. [])
           (filter (\<lambda>node. node_id node \<in> JStr ` set []) (flatten_nodes_to_list ?T)))
        () = Inr ''[ID:a1] Hi''"
    by simp
  have ne: "''[ID:a1] Hi'' \<noteq> []" by simp
  have rec: "parse_edited_content (\<lambda>k. []) ''[ID:a1] Hi'' (flatten_nodes_to_list ?T)
      = Inr [\<lparr>path = None, content = ''Hi'', update_id = ''a1''\<rparr>]"
    unfolding fl by (simp add: parse_eval)
  note th = process_uses_given_ids [where generate_text = ?gen and str_of = "\<lambda>v. []"
      and jsonnode = ?T and message = "''greet''" and selected_nodes_ids = "[]"
      and chat_history = "()" and edited_content = "''[ID:a1] Hi''"]
  from th [OF gen ne rec, THEN conjunct1]
  have "process_jsonnode (\<lambda>v. []) (\<lambda>k. []) ?gen ?T ''greet'' [] ()
     = [(''original'', RStr (dump_flattened_nodes (\<lambda>v. []) (flatten_nodes_to_list ?T))),
        (''edited'', RStr ''[ID:a1] Hi''), (''message'', RStr ''greet''),
        (''path_updates'', RUpdates [\<lparr>path = None, content = ''Hi'', update_id = ''a1''\<rparr>])]" .
  then have "process_jsonnode (\<lambda>v. []) (\<lambda>k. []) ?gen ?T ''greet'' [] ()
     = [(''original'', RStr ''[ID:a1] Hello''), (''edited'', RStr ''[ID:a1] Hi''),
        (''message'', RStr ''greet''),
        (''path_updates'', RUpdates [\<lparr>path = None, content = ''Hi'', update_id = ''a1''\<rparr>])]"
    unfolding fl by (simp add: dump_flattened_nodes_def render_line_def format_id_def)
  with rec show ?thesis by blast
qed

end
